theory Spec2Isabelle
  imports Main "HOL-Library.Word"
begin

section \<open>Python text and bytes, as far as the serial reader uses them\<close>

text \<open>
  A Python \<open>bytes\<close> value is a list of 8-bit words, a Python \<open>str\<close> a list of Unicode
  code points. The literals of the source are written \<open>str ''DOWN''\<close>.
\<close>

type_synonym byte = "8 word"
type_synonym pystr = "nat list"

abbreviation str :: "string \<Rightarrow> pystr" where
  "str s \<equiv> map of_char s"

abbreviation bytes :: "string \<Rightarrow> byte list" where
  "bytes s \<equiv> map of_char s"

text \<open>The newline byte of \<open>b"\n"\<close>.\<close>

definition NL :: byte where
  "NL = 10"

text \<open>
  \<open>bytes.decode("utf-8", errors="ignore")\<close>: well-formed sequences give their code
  point; an invalid start byte is skipped; after a start byte whose continuation is
  wrong, the bytes read so far are skipped and decoding resumes at the offending byte;
  a sequence cut off by the end of the data is dropped.
\<close>

definition is_cont :: "byte \<Rightarrow> bool" where
  "is_cont b = (0x80 \<le> b \<and> b \<le> 0xBF)"

fun py_decode :: "byte list \<Rightarrow> pystr" where
  "py_decode [] = []"
| "py_decode (b # bs) =
     (if b < 0x80 then unat b # py_decode bs
      else if b < 0xC2 then py_decode bs
      else if b < 0xE0 then
        (case bs of
           [] \<Rightarrow> []
         | b2 # r2 \<Rightarrow>
             if is_cont b2
             then ((unat b - 0xC0) * 64 + (unat b2 - 0x80)) # py_decode r2
             else py_decode bs)
      else if b < 0xF0 then
        (case bs of
           [] \<Rightarrow> []
         | b2 # r2 \<Rightarrow>
             if \<not> is_cont b2 \<or> (b = 0xE0 \<and> b2 < 0xA0) \<or> (b = 0xED \<and> 0xA0 \<le> b2)
             then py_decode bs
             else
               (case r2 of
                  [] \<Rightarrow> []
                | b3 # r3 \<Rightarrow>
                    if is_cont b3
                    then ((unat b - 0xE0) * 4096 + (unat b2 - 0x80) * 64 + (unat b3 - 0x80))
                           # py_decode r3
                    else py_decode r2))
      else if b < 0xF5 then
        (case bs of
           [] \<Rightarrow> []
         | b2 # r2 \<Rightarrow>
             if \<not> is_cont b2 \<or> (b = 0xF0 \<and> b2 < 0x90) \<or> (b = 0xF4 \<and> 0x90 \<le> b2)
             then py_decode bs
             else
               (case r2 of
                  [] \<Rightarrow> []
                | b3 # r3 \<Rightarrow>
                    if \<not> is_cont b3 then py_decode r2
                    else
                      (case r3 of
                         [] \<Rightarrow> []
                       | b4 # r4 \<Rightarrow>
                           if is_cont b4
                           then ((unat b - 0xF0) * 262144 + (unat b2 - 0x80) * 4096
                                   + (unat b3 - 0x80) * 64 + (unat b4 - 0x80))
                                  # py_decode r4
                           else py_decode r3)))
      else py_decode bs)"

text \<open>
  The white space of \<open>str.strip()\<close> and \<open>str.split()\<close>: the ASCII controls
  \<open>0x09..0x0D\<close> and \<open>0x1C..0x1F\<close>, the blank, and the Unicode spaces.
\<close>

definition is_space :: "nat \<Rightarrow> bool" where
  "is_space c =
     ((0x09 \<le> c \<and> c \<le> 0x0D) \<or> (0x1C \<le> c \<and> c \<le> 0x20) \<or> c = 0x85 \<or> c = 0xA0
      \<or> c = 0x1680 \<or> (0x2000 \<le> c \<and> c \<le> 0x200A) \<or> c = 0x2028 \<or> c = 0x2029
      \<or> c = 0x202F \<or> c = 0x205F \<or> c = 0x3000)"

definition py_strip :: "pystr \<Rightarrow> pystr" where
  "py_strip s = rev (dropWhile is_space (rev (dropWhile is_space s)))"

text \<open>
  \<open>str.split()\<close> without a separator: one left-to-right scan, \<open>cur\<close> being the token
  under construction; runs of white space separate tokens and give no empty token.
\<close>

fun split_scan :: "pystr \<Rightarrow> pystr \<Rightarrow> pystr list" where
  "split_scan cur [] = (if cur = [] then [] else [cur])"
| "split_scan cur (c # cs) =
     (if is_space c
      then (if cur = [] then split_scan [] cs else cur # split_scan [] cs)
      else split_scan (cur @ [c]) cs)"

definition py_split :: "pystr \<Rightarrow> pystr list" where
  "py_split s = split_scan [] s"

text \<open>
  \<open>str.upper()\<close> maps every code point through Unicode's full upper-case mapping and
  concatenates the results. On ASCII that is \<open>a..z\<close> to \<open>A..Z\<close>; the table for the
  code points from 128 on is not part of the repository and is the parameter \<open>uc\<close>.
\<close>

definition upper_cp :: "(nat \<Rightarrow> pystr) \<Rightarrow> nat \<Rightarrow> pystr" where
  "upper_cp uc c =
     (if 0x61 \<le> c \<and> c \<le> 0x7A then [c - 0x20] else if c < 0x80 then [c] else uc c)"

definition py_upper :: "(nat \<Rightarrow> pystr) \<Rightarrow> pystr \<Rightarrow> pystr" where
  "py_upper uc s = concat (map (upper_cp uc) s)"

section \<open>The serial controller of the host (pygametiro.py)\<close>

datatype connection = Serial string int

record controller =
  port :: string
  baud :: int
  conn :: "connection option"
  buffer :: "byte list"
  left :: bool
  right :: bool
  shoot :: bool
  reported_error :: bool

text \<open>
  The exceptions of the two programs: \<open>parts[0]\<close> on an empty list, an exception of
  \<open>read_all\<close> other than \<open>SerialException\<close>, and \<open>ticks_diff\<close> applied to \<open>None\<close>.
\<close>

datatype error = IndexError | ReadFailure | TypeError

text \<open>
  \<open>_open\<close>: \<open>opens\<close> tells whether \<open>serial.Serial(...)\<close> returns; when it raises, the
  exception is caught and the connection is \<open>None\<close>.
\<close>

definition open_conn :: "string \<Rightarrow> int \<Rightarrow> bool \<Rightarrow> connection option" where
  "open_conn p b opens = (if opens then Some (Serial p b) else None)"

definition SerialController :: "string \<Rightarrow> int \<Rightarrow> bool \<Rightarrow> controller" where
  "SerialController p b opens =
     \<lparr>port = p, baud = b, conn = open_conn p b opens, buffer = [],
      left = False, right = False, shoot = False, reported_error = False\<rparr>"

text \<open>
  \<open>_handle_line\<close>. \<open>parts[0]\<close> raises \<open>IndexError\<close> when \<open>parts\<close> is empty.
\<close>

definition handle_line :: "(nat \<Rightarrow> pystr) \<Rightarrow> controller \<Rightarrow> pystr \<Rightarrow> error + controller" where
  "handle_line uc s line =
     (if line = [] then Inr s
      else
        (case py_split (py_upper uc line) of
           [] \<Rightarrow> Inl IndexError
         | name # rest \<Rightarrow>
             (let state = (case rest of [] \<Rightarrow> [] | st # _ \<Rightarrow> st) in
              if name = str ''A'' then
                (if state = str ''DOWN'' \<or> state = str ''HELD'' then Inr (s\<lparr>left := True\<rparr>)
                 else if state = str ''UP'' then Inr (s\<lparr>left := False\<rparr>)
                 else Inr s)
              else if name = str ''B'' then
                (if state = str ''DOWN'' \<or> state = str ''HELD'' then Inr (s\<lparr>right := True\<rparr>)
                 else if state = str ''UP'' then Inr (s\<lparr>right := False\<rparr>)
                 else Inr s)
              else if name = str ''C'' then
                (if state = str ''DOWN'' \<or> state = str ''HELD'' then Inr (s\<lparr>shoot := True\<rparr>)
                 else Inr s)
              else Inr s)))"

text \<open>\<open>consume_shot\<close> returns its result together with the updated controller.\<close>

definition consume_shot :: "controller \<Rightarrow> bool \<times> controller" where
  "consume_shot s = (if shoot s then (True, s\<lparr>shoot := False\<rparr>) else (False, s))"

text \<open>
  The \<open>while b"\n" in self.buffer\<close> loop of \<open>update\<close>: \<open>split(b"\n", 1)\<close> cuts the buffer
  at its first newline, the buffer keeps the right part, and the left part is decoded,
  stripped and handled. An exception of \<open>_handle_line\<close> ends the loop. The result is the
  list of the lines passed to \<open>_handle_line\<close>, in the order of the calls, and the
  controller or the exception.
\<close>

function drain :: "(nat \<Rightarrow> pystr) \<Rightarrow> controller \<Rightarrow> pystr list \<times> (error + controller)" where
  "drain uc s =
     (if NL \<in> set (buffer s) then
        (case handle_line uc (s\<lparr>buffer := tl (dropWhile (\<lambda>b. b \<noteq> NL) (buffer s))\<rparr>)
                (py_strip (py_decode (takeWhile (\<lambda>b. b \<noteq> NL) (buffer s)))) of
           Inl e \<Rightarrow> ([py_strip (py_decode (takeWhile (\<lambda>b. b \<noteq> NL) (buffer s)))], Inl e)
         | Inr s' \<Rightarrow>
             (case drain uc s' of
                (ls, r) \<Rightarrow> (py_strip (py_decode (takeWhile (\<lambda>b. b \<noteq> NL) (buffer s))) # ls, r)))
      else ([], Inr s))"
  by pat_completeness auto
termination
proof (relation "measure (\<lambda>(uc, s). length (buffer s))")
  show "wf (measure (\<lambda>(uc, s). length (buffer s)))"
    by simp
next
  fix uc :: "nat \<Rightarrow> pystr" and s s' :: controller
  assume nl: "NL \<in> set (buffer s)"
    and h: "handle_line uc (s\<lparr>buffer := tl (dropWhile (\<lambda>b. b \<noteq> NL) (buffer s))\<rparr>)
              (py_strip (py_decode (takeWhile (\<lambda>b. b \<noteq> NL) (buffer s)))) = Inr s'"
  from h have "buffer s' = tl (dropWhile (\<lambda>b. b \<noteq> NL) (buffer s))"
    by (auto simp: handle_line_def Let_def split: if_splits list.splits)
  moreover from nl have "dropWhile (\<lambda>b. b \<noteq> NL) (buffer s) \<noteq> []"
    by simp
  moreover have "length (dropWhile (\<lambda>b. b \<noteq> NL) (buffer s)) \<le> length (buffer s)"
    by (rule length_dropWhile_le)
  ultimately have "length (buffer s') < length (buffer s)"
    by (cases "dropWhile (\<lambda>b. b \<noteq> NL) (buffer s)") auto
  then show "((uc, s'), (uc, s)) \<in> measure (\<lambda>(uc, s). length (buffer s))"
    by simp
qed

declare drain.simps [simp del]

text \<open>What \<open>self.conn.read_all()\<close> does on one call of \<open>update\<close>.\<close>

datatype read_result = Data "byte list" | RaisesSerialException | RaisesOther

text \<open>\<open>update\<close>, with the lines it passes to \<open>_handle_line\<close> as for \<open>drain\<close>.\<close>

definition update ::
  "(nat \<Rightarrow> pystr) \<Rightarrow> controller \<Rightarrow> read_result \<Rightarrow> pystr list \<times> (error + controller)" where
  "update uc s r =
     (if conn s = None then ([], Inr s)
      else
        (case r of
           RaisesSerialException \<Rightarrow>
             ([], Inr (if \<not> reported_error s then s\<lparr>reported_error := True\<rparr> else s))
         | RaisesOther \<Rightarrow> ([], Inl ReadFailure)
         | Data d \<Rightarrow>
             if d = [] then ([], Inr s)
             else drain uc (s\<lparr>buffer := buffer s @ d\<rparr>)))"

text \<open>
  Successive calls of \<open>update\<close>, one per frame, each with what \<open>read_all\<close> does in it; an
  exception ends the program. The lines handled are those of all the calls, in order.
\<close>

fun updates ::
  "(nat \<Rightarrow> pystr) \<Rightarrow> controller \<Rightarrow> read_result list \<Rightarrow> pystr list \<times> (error + controller)" where
  "updates uc s [] = ([], Inr s)"
| "updates uc s (r # rs) =
     (case update uc s r of
        (ls, Inl e) \<Rightarrow> (ls, Inl e)
      | (ls, Inr s') \<Rightarrow> (case updates uc s' rs of (ls', res) \<Rightarrow> (ls @ ls', res)))"

text \<open>Folding the upper case of the ASCII letters, to compare lines up to letter case.\<close>

definition ascii_fold :: "nat \<Rightarrow> nat" where
  "ascii_fold c = (if 0x61 \<le> c \<and> c \<le> 0x7A then c - 0x20 else c)"

text \<open>
  The lines the reader is to ignore: the empty line, a line of one token only, and a
  line whose first token, in upper case, is none of the channel names.
\<close>

definition ignored_line :: "(nat \<Rightarrow> pystr) \<Rightarrow> pystr \<Rightarrow> bool" where
  "ignored_line uc line =
     (line = [] \<or>
      (case py_split (py_upper uc line) of
         [] \<Rightarrow> False
       | nm # rest \<Rightarrow> rest = [] \<or> (nm \<noteq> str ''A'' \<and> nm \<noteq> str ''B'' \<and> nm \<noteq> str ''C'')))"

section \<open>The collision resolution of the game loop (pygametiro.py, main)\<close>

definition HEIGHT :: int where
  "HEIGHT = 600"

definition RED_IMMUNE :: "int \<times> int \<times> int" where
  "RED_IMMUNE = (231, 76, 60)"

record rect =
  rect_x :: int
  rect_y :: int
  rect_w :: int
  rect_h :: int

record entity =
  rect :: rect
  color :: "int \<times> int \<times> int"

text \<open>
  \<open>pygame.Rect.colliderect\<close>: rectangles of width or height 0 collide with nothing;
  otherwise the open intervals must overlap on both axes.
\<close>

definition colliderect :: "rect \<Rightarrow> rect \<Rightarrow> bool" where
  "colliderect a b =
     (if rect_w a = 0 \<or> rect_h a = 0 \<or> rect_w b = 0 \<or> rect_h b = 0 then False
      else
        min (rect_x a) (rect_x a + rect_w a) < max (rect_x b) (rect_x b + rect_w b)
        \<and> min (rect_y a) (rect_y a + rect_h a) < max (rect_y b) (rect_y b + rect_h b)
        \<and> max (rect_x a) (rect_x a + rect_w a) > min (rect_x b) (rect_x b + rect_w b)
        \<and> max (rect_y a) (rect_y a + rect_h a) > min (rect_y b) (rect_y b + rect_h b))"

text \<open>
  The inner loop \<open>for i, bullet in enumerate(bullets)\<close> for one obstacle: the index of
  the bullet at which the loop breaks with \<open>destroyed = True\<close>, or \<open>None\<close> when the loop
  runs to its end. \<open>i\<close> is the index of the head of the remaining bullets.
\<close>

fun bullet_hit :: "entity \<Rightarrow> entity list \<Rightarrow> nat \<Rightarrow> nat option" where
  "bullet_hit obstacle [] i = None"
| "bullet_hit obstacle (bullet # others) i =
     (if color obstacle = RED_IMMUNE then bullet_hit obstacle others (Suc i)
      else if colliderect (rect obstacle) (rect bullet) then Some i
      else bullet_hit obstacle others (Suc i))"

text \<open>
  The variables the outer loop changes. \<open>score\<close> is a Python float: the model only adds
  \<open>1\<close> to it and assumes no law of addition.
\<close>

record 'a frame =
  survived :: "entity list"
  bullets_to_remove :: "nat set"
  score :: 'a
  game_over :: bool

fun resolve :: "rect \<Rightarrow> entity list \<Rightarrow> entity list \<Rightarrow> ('a::{plus,one}) frame \<Rightarrow> 'a frame" where
  "resolve player_rect bullets [] f = f"
| "resolve player_rect bullets (obstacle # others) f =
     (case bullet_hit obstacle bullets 0 of
        Some i \<Rightarrow>
          resolve player_rect bullets others
            (f\<lparr>bullets_to_remove := insert i (bullets_to_remove f), score := score f + 1\<rparr>)
      | None \<Rightarrow>
          if colliderect (rect obstacle) player_rect then f\<lparr>game_over := True\<rparr>
          else if rect_y (rect obstacle) > HEIGHT
          then resolve player_rect bullets others (f\<lparr>score := score f + 1\<rparr>)
          else resolve player_rect bullets others (f\<lparr>survived := survived f @ [obstacle]\<rparr>))"

text \<open>
  Lines 217 to 239 as a whole: the new obstacles, the new bullets, the score and the
  game-over flag.
\<close>

definition keep_bullets :: "nat set \<Rightarrow> entity list \<Rightarrow> entity list" where
  "keep_bullets gone bullets =
     map snd (filter (\<lambda>(idx, b). idx \<notin> gone \<and> rect_y (rect b) + rect_h (rect b) > 0)
                (enumerate 0 bullets))"

definition collide ::
  "rect \<Rightarrow> entity list \<Rightarrow> entity list \<Rightarrow> ('a::{plus,one}) \<Rightarrow> bool
     \<Rightarrow> entity list \<times> entity list \<times> 'a \<times> bool" where
  "collide player_rect obstacles bullets sc over =
     (let f = resolve player_rect bullets obstacles
                \<lparr>survived = [], bullets_to_remove = {}, score = sc, game_over = over\<rparr>
      in (survived f, keep_bullets (bullets_to_remove f) bullets, score f, game_over f))"

section \<open>The button debouncer of the device (thonnygame.py)\<close>

definition DEBOUNCE_MS :: int where
  "DEBOUNCE_MS = 25"

definition HELD_PRINT_INTERVAL_MS :: int where
  "HELD_PRINT_INTERVAL_MS = 200"

text \<open>
  MicroPython's tick counter: \<open>time.ticks_ms()\<close> counts milliseconds modulo a period,
  \<open>2 ^ 30\<close> on the 32-bit ports, and \<open>time.ticks_diff(a, b)\<close> is the difference brought
  back into the half-open range of half a period around \<open>0\<close>. \<open>ticks_ms T\<close> is the
  reading of the counter at the time \<open>T\<close>, in milliseconds since start.
\<close>

definition TICKS_PERIOD :: int where
  "TICKS_PERIOD = 2 ^ 30"

definition ticks_ms :: "int \<Rightarrow> int" where
  "ticks_ms T = T mod TICKS_PERIOD"

definition ticks_diff :: "int \<Rightarrow> int \<Rightarrow> int" where
  "ticks_diff a b =
     (a - b + TICKS_PERIOD div 2) mod TICKS_PERIOD - TICKS_PERIOD div 2"

text \<open>\<open>Pin.value()\<close> is \<open>0\<close> or \<open>1\<close>; with the pull-up, \<open>0\<close> is the pressed button.\<close>

datatype level = Low | High

record button =
  name :: string
  last_raw :: level
  last_change :: int
  stable :: level
  pressed_time :: "int option"
  last_held_print :: "int option"

text \<open>\<open>__init__\<close>, with the level the pin reads and the reading of \<open>now_ms()\<close>.\<close>

definition SimpleButton :: "string \<Rightarrow> level \<Rightarrow> int \<Rightarrow> button" where
  "SimpleButton nm raw now =
     \<lparr>name = nm, last_raw = raw, last_change = now, stable = raw,
      pressed_time = None, last_held_print = None\<rparr>"

text \<open>
  \<open>update\<close> of \<open>SimpleButton\<close>, with the level the pin reads in this call. The result is
  the new button and the messages passed to \<open>send\<close>, in order. The local \<open>dur\<close> is
  computed and never used; it is left out.
\<close>

definition debounce :: "button \<Rightarrow> int \<Rightarrow> level \<Rightarrow> button" where
  "debounce b current_time raw =
     (if raw \<noteq> last_raw b then b\<lparr>last_raw := raw, last_change := current_time\<rparr> else b)"

definition commit :: "button \<Rightarrow> int \<Rightarrow> level \<Rightarrow> button \<times> string list" where
  "commit b current_time raw =
     (if ticks_diff current_time (last_change b) \<ge> DEBOUNCE_MS then
        (if raw \<noteq> stable b then
           (if raw = Low
            then (b\<lparr>stable := raw, pressed_time := Some current_time,
                     last_held_print := Some current_time\<rparr>,
                  [name b @ '' DOWN''])
            else (b\<lparr>stable := raw, pressed_time := None, last_held_print := None\<rparr>,
                  [name b @ '' UP'']))
         else (b, []))
      else (b, []))"

definition held :: "button \<Rightarrow> int \<Rightarrow> error + button \<times> string list" where
  "held b current_time =
     (if stable b = Low \<and> pressed_time b \<noteq> None then
        (case last_held_print b of
           None \<Rightarrow> Inl TypeError
         | Some h \<Rightarrow>
             if ticks_diff current_time h \<ge> HELD_PRINT_INTERVAL_MS
             then Inr (b\<lparr>last_held_print := Some current_time\<rparr>, [name b @ '' HELD''])
             else Inr (b, []))
      else Inr (b, []))"

definition button_update :: "button \<Rightarrow> int \<Rightarrow> level \<Rightarrow> error + button \<times> string list" where
  "button_update b current_time raw =
     (case commit (debounce b current_time raw) current_time raw of
        (b2, out2) \<Rightarrow>
          (case held b2 current_time of
             Inl e \<Rightarrow> Inl e
           | Inr (b3, out3) \<Rightarrow> Inr (b3, out2 @ out3)))"

text \<open>
  The main loop for one button: each sample is the time of a tick and the level the pin
  reads at it; the result is the button after the last tick and what was sent at each.
\<close>

fun poll :: "button \<Rightarrow> (int \<times> level) list \<Rightarrow> error + button \<times> string list list" where
  "poll b [] = Inr (b, [])"
| "poll b ((T, raw) # later) =
     (case button_update b (ticks_ms T) raw of
        Inl e \<Rightarrow> Inl e
      | Inr (b', out) \<Rightarrow>
          (case poll b' later of
             Inl e \<Rightarrow> Inl e
           | Inr (b'', outs) \<Rightarrow> Inr (b'', out # outs)))"

subsection \<open>The history of a button, to state what it sends\<close>

text \<open>
  The times of the ticks, from the construction on, do not decrease, and two ticks in
  a row are less than half the period of the counter, minus the heartbeat interval,
  apart: the range in which \<open>ticks_diff\<close> is the elapsed time.
\<close>

fun well_timed :: "int \<Rightarrow> int list \<Rightarrow> bool" where
  "well_timed t [] = True"
| "well_timed t (u # us) =
     (t \<le> u \<and> u - t < TICKS_PERIOD div 2 - HELD_PRINT_INTERVAL_MS \<and> well_timed u us)"

text \<open>
  The run of equal samples a sample belongs to: the time of the first sample of the run
  and its level. The pin as read by the constructor is the first sample of all.
\<close>

fun run_start_step :: "int \<times> level \<Rightarrow> int \<times> level \<Rightarrow> int \<times> level" where
  "run_start_step (S, r0) (T, r) = (if r \<noteq> r0 then (T, r) else (S, r0))"

definition run_start :: "int \<Rightarrow> level \<Rightarrow> (int \<times> level) list \<Rightarrow> int \<times> level" where
  "run_start T0 r0 xs = foldl run_start_step (T0, r0) xs"

text \<open>
  The time of the last announcement of the press in progress, \<open>DOWN\<close> or \<open>HELD\<close>, in a
  history of ticks with what was sent at each; \<open>None\<close> before the first \<open>DOWN\<close> and
  after an \<open>UP\<close>.
\<close>

fun announce_step :: "string \<Rightarrow> int option \<Rightarrow> int \<times> string list \<Rightarrow> int option" where
  "announce_step nm h (T, out) =
     (if nm @ '' UP'' \<in> set out then None
      else if nm @ '' DOWN'' \<in> set out \<or> nm @ '' HELD'' \<in> set out then Some T
      else h)"

definition last_announce :: "string \<Rightarrow> (int \<times> string list) list \<Rightarrow> int option" where
  "last_announce nm history = foldl (announce_step nm) None history"

text \<open>
  A sample sequence that bounces: every sample is taken less than the debounce window
  after the first sample of its run. \<open>S\<close> and \<open>r0\<close> are the run before the samples.
\<close>

fun bouncing :: "int \<Rightarrow> level \<Rightarrow> (int \<times> level) list \<Rightarrow> bool" where
  "bouncing S r0 [] = True"
| "bouncing S r0 ((T, r) # later) =
     (T - (if r \<noteq> r0 then T else S) < DEBOUNCE_MS
      \<and> bouncing (if r \<noteq> r0 then T else S) r later)"

text \<open>The \<open>DOWN\<close> and \<open>UP\<close> messages of a button among all it sent, in order.\<close>

definition transitions :: "string \<Rightarrow> string list list \<Rightarrow> string list" where
  "transitions nm outs =
     filter (\<lambda>m. m = nm @ '' DOWN'' \<or> m = nm @ '' UP'') (concat outs)"

text \<open>
  How the fields of a button follow its history: \<open>run\<close> is the run of the last sample,
  \<open>Tl\<close> the time of the last tick and \<open>h\<close> the time of the last announcement.
\<close>

definition consistent :: "string \<Rightarrow> button \<Rightarrow> int \<times> level \<Rightarrow> int \<Rightarrow> int option \<Rightarrow> bool" where
  "consistent nm b run Tl h =
     (name b = nm \<and> last_raw b = snd run \<and> last_change b = ticks_ms (fst run)
      \<and> fst run \<le> Tl
      \<and> (last_raw b \<noteq> stable b \<longrightarrow> Tl - fst run < DEBOUNCE_MS)
      \<and> (pressed_time b = None \<longleftrightarrow> last_held_print b = None)
      \<and> last_held_print b = map_option ticks_ms h
      \<and> (case h of
           None \<Rightarrow> True
         | Some a \<Rightarrow> stable b = Low \<and> a \<le> Tl \<and> Tl - a < HELD_PRINT_INTERVAL_MS))"

text \<open>
  The same for a whole history: \<open>b\<close> is the button after the samples \<open>xs\<close>, and \<open>outs\<close>
  what it sent at each of them.
\<close>

definition follows :: "string \<Rightarrow> int \<Rightarrow> level \<Rightarrow> (int \<times> level) list \<Rightarrow> button \<Rightarrow> string list list \<Rightarrow> bool" where
  "follows nm T0 r0 xs b outs =
     (length outs = length xs
      \<and> consistent nm b (run_start T0 r0 xs) (last (T0 # map fst xs))
            (last_announce nm (zip (map fst xs) outs))
      \<and> distinct_adj (transitions nm outs)
      \<and> (transitions nm outs \<noteq> [] \<longrightarrow>
            last (transitions nm outs) = nm @ (if stable b = Low then '' DOWN'' else '' UP''))
      \<and> (bouncing T0 r0 xs \<longrightarrow> transitions nm outs = []))"
section \<open>Properties of the serial controller\<close>

lemmas str_eval = py_upper_def upper_cp_def py_split_def is_space_def

subsection \<open>Reassembly of lines\<close>

lemma handle_line_buffer:
  "handle_line uc (s\<lparr>buffer := b\<rparr>) l =
     (case handle_line uc s l of Inl e \<Rightarrow> Inl e | Inr t \<Rightarrow> Inr (t\<lparr>buffer := b\<rparr>))"
  by (simp add: handle_line_def Let_def split: list.splits)

lemma handle_line_keeps:
  "handle_line uc s l = Inr t \<Longrightarrow> buffer t = buffer s \<and> conn t = conn s"
  by (auto simp: handle_line_def Let_def split: if_splits list.splits)

lemma drain_keeps_conn:
  "drain uc s = (ls, Inr t) \<Longrightarrow> conn t = conn s"
proof (induction uc s arbitrary: ls t rule: drain.induct)
  case (1 uc s)
  show ?case
  proof (cases "NL \<in> set (buffer s)")
    case False
    with "1.prems" show ?thesis by (simp add: drain.simps)
  next
    case True
    let ?s1 = "s\<lparr>buffer := tl (dropWhile (\<lambda>b. b \<noteq> NL) (buffer s))\<rparr>"
    let ?l = "py_strip (py_decode (takeWhile (\<lambda>b. b \<noteq> NL) (buffer s)))"
    from True "1.prems" obtain s' ls' where h: "handle_line uc ?s1 ?l = Inr s'"
      and d: "drain uc s' = (ls', Inr t)"
      by (subst (asm) drain.simps) (auto split: sum.splits prod.splits)
    from "1.IH"[OF True h d] have "conn t = conn s'" .
    with handle_line_keeps[OF h] show ?thesis by simp
  qed
qed

lemma drain_append:
  "drain uc (s\<lparr>buffer := buffer s @ d\<rparr>) =
     (case drain uc s of
        (ls, Inl e) \<Rightarrow> (ls, Inl e)
      | (ls, Inr t) \<Rightarrow>
          (case drain uc (t\<lparr>buffer := buffer t @ d\<rparr>) of (ls', r) \<Rightarrow> (ls @ ls', r)))"
proof (induction uc s rule: drain.induct)
  case (1 uc s)
  show ?case
  proof (cases "NL \<in> set (buffer s)")
    case False
    then show ?thesis by (simp add: drain.simps[of uc s])
  next
    case True
    let ?rest = "tl (dropWhile (\<lambda>b. b \<noteq> NL) (buffer s))"
    let ?l = "py_strip (py_decode (takeWhile (\<lambda>b. b \<noteq> NL) (buffer s)))"
    from True have tw: "takeWhile (\<lambda>b. b \<noteq> NL) (buffer s @ d) = takeWhile (\<lambda>b. b \<noteq> NL) (buffer s)"
      by (intro takeWhile_append1[of NL]) auto
    from True have dw: "dropWhile (\<lambda>b. b \<noteq> NL) (buffer s @ d) = dropWhile (\<lambda>b. b \<noteq> NL) (buffer s) @ d"
      by (intro dropWhile_append1[of NL]) auto
    from True have ne: "dropWhile (\<lambda>b. b \<noteq> NL) (buffer s) \<noteq> []" by simp
    have rest: "tl (dropWhile (\<lambda>b. b \<noteq> NL) (buffer s @ d)) = ?rest @ d"
      using ne by (simp add: dw)
    have lhs: "drain uc (s\<lparr>buffer := buffer s @ d\<rparr>) =
      (case handle_line uc (s\<lparr>buffer := ?rest @ d\<rparr>) ?l of
         Inl e \<Rightarrow> ([?l], Inl e)
       | Inr s' \<Rightarrow> (case drain uc s' of (ls, r) \<Rightarrow> (?l # ls, r)))"
      using True by (subst drain.simps) (auto simp: tw rest split: sum.splits prod.splits)
    have rhs: "drain uc s =
      (case handle_line uc (s\<lparr>buffer := ?rest\<rparr>) ?l of
         Inl e \<Rightarrow> ([?l], Inl e)
       | Inr s' \<Rightarrow> (case drain uc s' of (ls, r) \<Rightarrow> (?l # ls, r)))"
      using True by (subst drain.simps) simp
    show ?thesis
    proof (cases "handle_line uc (s\<lparr>buffer := ?rest\<rparr>) ?l")
      case (Inl e)
      then have "handle_line uc (s\<lparr>buffer := ?rest @ d\<rparr>) ?l = Inl e"
        by (simp add: handle_line_buffer[where s=s] split: sum.splits)
      with Inl show ?thesis by (simp add: lhs rhs)
    next
      case (Inr s')
      then have b: "buffer s' = ?rest"
        using handle_line_keeps[OF Inr] by simp
      from Inr have "handle_line uc (s\<lparr>buffer := ?rest @ d\<rparr>) ?l = Inr (s'\<lparr>buffer := ?rest @ d\<rparr>)"
        by (auto simp add: handle_line_buffer[where s=s] split: sum.splits)
      then have l2: "drain uc (s\<lparr>buffer := buffer s @ d\<rparr>) =
          (case drain uc (s'\<lparr>buffer := buffer s' @ d\<rparr>) of (ls, r) \<Rightarrow> (?l # ls, r))"
        by (simp add: lhs b)
      from "1.IH"[OF True Inr] 
      show ?thesis
        by (simp add: l2 rhs Inr split: prod.splits sum.splits)
    qed
  qed
qed

lemma update_twice:
  "(case update uc s (Data c) of
      (ls, Inl e) \<Rightarrow> (ls, Inl e)
    | (ls, Inr t) \<Rightarrow> (case update uc t (Data d) of (ls', r) \<Rightarrow> (ls @ ls', r)))
   = update uc s (Data (c @ d))"
proof (cases "conn s = None \<or> c = []")
  case True
  then show ?thesis by (auto simp: update_def)
next
  case False
  then have c: "conn s \<noteq> None" "c \<noteq> []" by auto
  let ?s1 = "s\<lparr>buffer := buffer s @ c\<rparr>"
  have u1: "update uc s (Data c) = drain uc ?s1" using c by (auto simp: update_def)
  have u2: "update uc s (Data (c @ d)) = drain uc (?s1\<lparr>buffer := buffer ?s1 @ d\<rparr>)"
    using c by (auto simp: update_def)
  show ?thesis
  proof (cases "d = []")
    case True
    have e: "\<And>t. update uc t (Data []) = ([], Inr t)"
      by (simp add: update_def)
    show ?thesis
      unfolding True append_Nil2 e u1 [symmetric]
      by (simp split: prod.splits sum.splits)
  next
    case False
    have "\<And>ls t. drain uc ?s1 = (ls, Inr t) \<Longrightarrow> update uc t (Data d) = drain uc (t\<lparr>buffer := buffer t @ d\<rparr>)"
      using drain_keeps_conn[of uc ?s1] c False by (auto simp: update_def)
    then show ?thesis
      unfolding u1 u2 drain_append[of uc ?s1 d]
      by (auto split: prod.splits sum.splits)
  qed
qed

text \<open>
  The scenario of the specification: \<open>b"A DOWN\nB DOW"\<close> in one poll and
  \<open>b"N\nA UP\n"\<close> in the next.
\<close>

lemma reassembly_example:
  "update (\<lambda>c. [c]) (SerialController ''COM3'' 115200 True) (Data (bytes ''A DOWN'' @ NL # bytes ''B DOW''))
     = ([str ''A DOWN''],
        Inr ((SerialController ''COM3'' 115200 True)\<lparr>buffer := bytes ''B DOW'', left := True\<rparr>))"
  "update (\<lambda>c. [c])
       ((SerialController ''COM3'' 115200 True)\<lparr>buffer := bytes ''B DOW'', left := True\<rparr>)
       (Data (bytes ''N'' @ NL # bytes ''A UP'' @ [NL]))
     = ([str ''B DOWN'', str ''A UP''],
        Inr ((SerialController ''COM3'' 115200 True)\<lparr>right := True\<rparr>))"
  by (simp_all add: update_def SerialController_def open_conn_def drain.simps NL_def
      handle_line_def str_eval py_strip_def)

text \<open>
  Claim C1. Whatever the controller, the bytes delivered to \<open>update\<close> in any partition
  into chunks, empty chunks and chunks that cut a line included, have the effect of
  the same bytes delivered as one chunk: the same lines are passed to \<open>_handle_line\<close>
  in the same order, and the controller (flags and pending buffer) or the exception
  at the end is the same.
\<close>

theorem chunk_invariance:
  "updates uc s (map Data chunks) = update uc s (Data (concat chunks))"
proof (induction chunks arbitrary: s)
  case Nil
  show ?case by (simp add: update_def)
next
  case (Cons c cs)
  have "updates uc s (map Data (c # cs)) =
      (case update uc s (Data c) of
         (ls, Inl e) \<Rightarrow> (ls, Inl e)
       | (ls, Inr t) \<Rightarrow> (case update uc t (Data (concat cs)) of (ls', r) \<Rightarrow> (ls @ ls', r)))"
    by (simp add: Cons.IH split: prod.splits sum.splits)
  also have "\<dots> = update uc s (Data (c @ concat cs))"
    by (rule update_twice)
  finally show ?case by simp
qed

subsection \<open>The shoot flag\<close>

text \<open>
  Claim C4. A line \<open>C DOWN\<close> sets the shoot flag, also when it reaches a fresh
  controller as the bytes \<open>b"C DOWN\n"\<close>; \<open>consume_shot\<close> on a set flag returns true and
  clears it, a second call returns false and leaves it cleared; in general
  \<open>consume_shot\<close> returns the flag it finds and the flag is false after it.
\<close>

theorem consume_shot_one_shot:
  "handle_line uc s (str ''C DOWN'') = Inr (s\<lparr>shoot := True\<rparr>)
   \<and> update uc (SerialController p b True) (Data (bytes ''C DOWN'' @ [NL]))
       = ([str ''C DOWN''], Inr ((SerialController p b True)\<lparr>shoot := True\<rparr>))
   \<and> consume_shot (s\<lparr>shoot := True\<rparr>) = (True, s\<lparr>shoot := False\<rparr>)
   \<and> consume_shot (s\<lparr>shoot := False\<rparr>) = (False, s\<lparr>shoot := False\<rparr>)
   \<and> \<not> shoot (snd (consume_shot t))
   \<and> fst (consume_shot t) = shoot t"
proof -
  have h: "handle_line uc s (str ''C DOWN'') = Inr (s\<lparr>shoot := True\<rparr>)" for s
    by (simp add: handle_line_def str_eval)
  have "update uc (SerialController p b True) (Data (bytes ''C DOWN'' @ [NL]))
       = ([str ''C DOWN''], Inr ((SerialController p b True)\<lparr>shoot := True\<rparr>))"
    by (simp add: update_def SerialController_def open_conn_def drain.simps NL_def
        handle_line_def str_eval py_strip_def)
  with h show ?thesis
    by (simp add: consume_shot_def)
qed

text \<open>
  Claim C5. A line whose first token is the channel \<open>C\<close>, in any letter case: with the
  state \<open>DOWN\<close> or \<open>HELD\<close> the shoot flag is set and nothing else changes; with the
  state \<open>UP\<close> the controller, its shoot flag and both movement flags included, is
  unchanged.
\<close>

theorem shoot_press_triggered:
  assumes "py_split (py_upper uc line) = str ''C'' # st # rest"
  shows "(st = str ''DOWN'' \<or> st = str ''HELD'' \<longrightarrow> handle_line uc s line = Inr (s\<lparr>shoot := True\<rparr>))
       \<and> (st = str ''UP'' \<longrightarrow> handle_line uc s line = Inr s)"
proof -
  from assms have "line \<noteq> []"
    by (auto simp: py_upper_def py_split_def)
  with assms show ?thesis
    by (simp add: handle_line_def)
qed

theorem shoot_press_triggered_witness:
  "handle_line (\<lambda>c. [c]) (SerialController ''COM3'' 115200 True) (str ''c held'')
     = Inr ((SerialController ''COM3'' 115200 True)\<lparr>shoot := True\<rparr>)
   \<and> handle_line (\<lambda>c. [c]) ((SerialController ''COM3'' 115200 True)\<lparr>shoot := True, left := True\<rparr>) (str ''C UP'')
     = Inr ((SerialController ''COM3'' 115200 True)\<lparr>shoot := True, left := True\<rparr>)"
proof -
  have a: "py_split (py_upper (\<lambda>c. [c]) (str ''c held'')) = str ''C'' # str ''HELD'' # []"
    by (simp add: str_eval)
  have b: "py_split (py_upper (\<lambda>c. [c]) (str ''C UP'')) = str ''C'' # str ''UP'' # []"
    by (simp add: str_eval)
  from shoot_press_triggered [OF a] shoot_press_triggered [OF b]
  show ?thesis by simp
qed

subsection \<open>Letter case\<close>

lemma upper_cp_fold: "upper_cp uc (ascii_fold c) = upper_cp uc c"
  by (auto simp: upper_cp_def ascii_fold_def)

lemma py_upper_fold: "py_upper uc (map ascii_fold l) = py_upper uc l"
  by (simp add: py_upper_def comp_def upper_cp_fold)

text \<open>
  Claim C8. Two lines that differ only in the case of ASCII letters are handled alike:
  from every controller they give the same controller. So \<open>a down\<close> does what
  \<open>A DOWN\<close> does, and likewise every channel and state in any mixture of cases.
\<close>

theorem case_insensitive:
  assumes "map ascii_fold l1 = map ascii_fold l2"
  shows "handle_line uc s l1 = handle_line uc s l2"
proof -
  from assms have "py_upper uc l1 = py_upper uc l2"
    by (metis py_upper_fold)
  moreover from assms have "l1 = [] \<longleftrightarrow> l2 = []"
    by (metis map_is_Nil_conv)
  ultimately show ?thesis
    by (simp add: handle_line_def)
qed

theorem case_insensitive_witness:
  "handle_line (\<lambda>c. [c]) (SerialController ''COM3'' 115200 True) (str ''a down'')
     = handle_line (\<lambda>c. [c]) (SerialController ''COM3'' 115200 True) (str ''A DOWN'')
   \<and> handle_line (\<lambda>c. [c]) (SerialController ''COM3'' 115200 True) (str ''A DOWN'')
     = Inr ((SerialController ''COM3'' 115200 True)\<lparr>left := True\<rparr>)"
proof -
  have "map ascii_fold (str ''a down'') = map ascii_fold (str ''A DOWN'')"
    by (simp add: ascii_fold_def)
  from case_insensitive [OF this] show ?thesis
    by (simp add: handle_line_def str_eval)
qed

subsection \<open>Lines that are ignored\<close>

lemma ignored_line_unchanged:
  "ignored_line uc line \<Longrightarrow> handle_line uc s line = Inr s"
  by (auto simp: ignored_line_def handle_line_def split: list.splits)

text \<open>
  Claim C6. The empty line, a line without a state token and a line whose first token
  is no channel name leave the controller as it is and raise nothing; when such a
  line is the first of the buffer, the loop of \<open>update\<close> goes on with the lines after it
  as if they were alone in the buffer.
\<close>

theorem unrecognised_lines_ignored:
  "(ignored_line uc line \<longrightarrow> handle_line uc s line = Inr s)
   \<and> (ignored_line uc (py_strip (py_decode raw)) \<and> NL \<notin> set raw \<longrightarrow>
        drain uc (s\<lparr>buffer := raw @ NL # later\<rparr>) =
          (case drain uc (s\<lparr>buffer := later\<rparr>) of
             (ls, r) \<Rightarrow> (py_strip (py_decode raw) # ls, r)))"
proof (intro conjI impI)
  assume "ignored_line uc line"
  then show "handle_line uc s line = Inr s"
    by (rule ignored_line_unchanged)
next
  assume a: "ignored_line uc (py_strip (py_decode raw)) \<and> NL \<notin> set raw"
  then have tw: "takeWhile (\<lambda>b. b \<noteq> NL) (raw @ NL # later) = raw"
    by (subst takeWhile_append2) auto
  from a have dw: "dropWhile (\<lambda>b. b \<noteq> NL) (raw @ NL # later) = NL # later"
    by (subst dropWhile_append2) auto
  from a have h: "handle_line uc (s\<lparr>buffer := later\<rparr>) (py_strip (py_decode raw)) = Inr (s\<lparr>buffer := later\<rparr>)"
    by (simp add: ignored_line_unchanged)
  show "drain uc (s\<lparr>buffer := raw @ NL # later\<rparr>) =
          (case drain uc (s\<lparr>buffer := later\<rparr>) of
             (ls, r) \<Rightarrow> (py_strip (py_decode raw) # ls, r))"
    by (subst drain.simps) (simp add: tw dw h)
qed

theorem unrecognised_lines_ignored_witness:
  "handle_line (\<lambda>c. [c]) ((SerialController ''COM3'' 115200 True)\<lparr>shoot := True, right := True\<rparr>)
       (str ''X DOWN'')
     = Inr ((SerialController ''COM3'' 115200 True)\<lparr>shoot := True, right := True\<rparr>)
   \<and> handle_line (\<lambda>c. [c]) ((SerialController ''COM3'' 115200 True)\<lparr>left := True\<rparr>) (str ''a'')
     = Inr ((SerialController ''COM3'' 115200 True)\<lparr>left := True\<rparr>)
   \<and> handle_line (\<lambda>c. [c]) ((SerialController ''COM3'' 115200 True)\<lparr>left := True\<rparr>) []
     = Inr ((SerialController ''COM3'' 115200 True)\<lparr>left := True\<rparr>)
   \<and> drain (\<lambda>c. [c])
       ((SerialController ''COM3'' 115200 True)\<lparr>buffer := bytes ''X DOWN'' @ NL # bytes ''A DOWN'' @ [NL]\<rparr>)
     = ([str ''X DOWN'', str ''A DOWN''],
        Inr ((SerialController ''COM3'' 115200 True)\<lparr>left := True\<rparr>))"
proof -
  let ?s = "SerialController ''COM3'' 115200 True"
  have i1: "ignored_line (\<lambda>c. [c]) (str ''X DOWN'')"
    by (simp add: ignored_line_def str_eval)
  have i2: "ignored_line (\<lambda>c. [c]) (str ''a'')"
    by (simp add: ignored_line_def str_eval)
  have i3: "ignored_line (\<lambda>c. [c]) []"
    by (simp add: ignored_line_def)
  have d: "py_strip (py_decode (bytes ''X DOWN'')) = str ''X DOWN''"
    by (simp add: py_strip_def is_space_def)
  have n: "NL \<notin> set (bytes ''X DOWN'')"
    by (simp add: NL_def)
  have r: "drain (\<lambda>c. [c]) (?s\<lparr>buffer := bytes ''A DOWN'' @ [NL]\<rparr>)
      = ([str ''A DOWN''], Inr (?s\<lparr>left := True\<rparr>))"
    by (simp add: drain.simps NL_def SerialController_def handle_line_def str_eval py_strip_def)
  note t1 = unrecognised_lines_ignored [where uc = "\<lambda>c. [c]" and line = "str ''X DOWN''"
      and s = "?s\<lparr>shoot := True, right := True\<rparr>" and raw = "bytes ''X DOWN''"]
  note t2 = unrecognised_lines_ignored [where uc = "\<lambda>c. [c]" and line = "str ''a''"
      and s = "?s\<lparr>left := True\<rparr>" and raw = "bytes ''X DOWN''"]
  note t3 = unrecognised_lines_ignored [where uc = "\<lambda>c. [c]" and line = "[]"
      and s = "?s\<lparr>left := True\<rparr>" and raw = "bytes ''X DOWN''"]
  note t4 = unrecognised_lines_ignored [where uc = "\<lambda>c. [c]" and line = "str ''X DOWN''"
      and s = ?s and raw = "bytes ''X DOWN''" and later = "bytes ''A DOWN'' @ [NL]"]
  from t1 i1 have c1: "handle_line (\<lambda>c. [c]) (?s\<lparr>shoot := True, right := True\<rparr>) (str ''X DOWN'')
      = Inr (?s\<lparr>shoot := True, right := True\<rparr>)"
    by blast
  from t2 i2 have c2: "handle_line (\<lambda>c. [c]) (?s\<lparr>left := True\<rparr>) (str ''a'') = Inr (?s\<lparr>left := True\<rparr>)"
    by blast
  from t3 i3 have c3: "handle_line (\<lambda>c. [c]) (?s\<lparr>left := True\<rparr>) [] = Inr (?s\<lparr>left := True\<rparr>)"
    by blast
  from i1 d have "ignored_line (\<lambda>c. [c]) (py_strip (py_decode (bytes ''X DOWN'')))"
    by simp
  with t4 n have "drain (\<lambda>c. [c]) (?s\<lparr>buffer := bytes ''X DOWN'' @ NL # bytes ''A DOWN'' @ [NL]\<rparr>) =
      (case drain (\<lambda>c. [c]) (?s\<lparr>buffer := bytes ''A DOWN'' @ [NL]\<rparr>) of
         (ls, r) \<Rightarrow> (py_strip (py_decode (bytes ''X DOWN'')) # ls, r))"
    by blast
  then have c4: "drain (\<lambda>c. [c]) (?s\<lparr>buffer := bytes ''X DOWN'' @ NL # bytes ''A DOWN'' @ [NL]\<rparr>)
      = ([str ''X DOWN'', str ''A DOWN''], Inr (?s\<lparr>left := True\<rparr>))"
    by (simp only: r d prod.case)
  from c1 c2 c3 c4 show ?thesis
    by (intro conjI)
qed

subsection \<open>A port that does not open\<close>

text \<open>
  Claim C7. When opening the port raises, the constructor returns a controller
  without connection; every sequence of calls of \<open>update\<close>, whatever the transport
  would do, returns that same controller, handles no line and raises nothing; its
  \<open>left\<close> and \<open>right\<close> are false and \<open>consume_shot\<close> returns false and changes nothing.
\<close>

theorem no_input_after_failed_open:
  "updates uc (SerialController p b False) rs = ([], Inr (SerialController p b False))
   \<and> \<not> left (SerialController p b False)
   \<and> \<not> right (SerialController p b False)
   \<and> consume_shot (SerialController p b False) = (False, SerialController p b False)"
proof -
  have u: "\<And>r. update uc (SerialController p b False) r = ([], Inr (SerialController p b False))"
    by (simp add: update_def SerialController_def open_conn_def)
  have "updates uc (SerialController p b False) rs = ([], Inr (SerialController p b False))"
    by (induction rs) (simp_all add: u)
  then show ?thesis
    by (simp add: consume_shot_def SerialController_def)
qed

section \<open>Properties of the collision resolution\<close>

lemma bullet_hit_immune: "color ob = RED_IMMUNE \<Longrightarrow> bullet_hit ob bs i = None"
  by (induction bs arbitrary: i) simp_all

lemma bullet_hit_Some:
  "bullet_hit ob bs i = Some k \<Longrightarrow>
     color ob \<noteq> RED_IMMUNE \<and> i \<le> k \<and> k - i < length bs
     \<and> colliderect (rect ob) (rect (bs ! (k - i)))"
proof (induction bs arbitrary: i)
  case Nil
  then show ?case by simp
next
  case (Cons b bs)
  show ?case
  proof (cases "color ob \<noteq> RED_IMMUNE \<and> colliderect (rect ob) (rect b)")
    case True
    with Cons.prems show ?thesis by simp
  next
    case False
    with Cons.prems have "bullet_hit ob bs (Suc i) = Some k"
      by (auto split: if_splits)
    from Cons.IH [OF this] show ?thesis
      by (auto simp: Suc_diff_Suc)
  qed
qed

lemma resolve_survived_mono:
  "x \<in> set (survived f) \<Longrightarrow> x \<in> set (survived (resolve pl bs obs f))"
  by (induction obs arbitrary: f) (auto split: option.splits)

lemma resolve_all_immune:
  "\<forall>ob \<in> set obs. color ob = RED_IMMUNE \<Longrightarrow> resolve pl bs obs f = resolve pl [] obs f"
  by (induction obs arbitrary: f) (simp_all add: bullet_hit_immune)

lemma resolve_immune_survives:
  "ob \<in> set obs \<Longrightarrow> color ob = RED_IMMUNE \<Longrightarrow> \<not> game_over (resolve pl bs obs f)
     \<Longrightarrow> rect_y (rect ob) \<le> HEIGHT \<Longrightarrow> ob \<in> set (survived (resolve pl bs obs f))"
proof (induction obs arbitrary: f)
  case Nil
  then show ?case by simp
next
  case (Cons o1 obs)
  show ?case
  proof (cases "ob = o1")
    case True
    with Cons.prems have h: "bullet_hit o1 bs 0 = None"
      by (simp add: bullet_hit_immune)
    from Cons.prems(3) h have nc: "\<not> colliderect (rect o1) pl"
      by (auto split: if_splits)
    from True Cons.prems(4) h nc have "resolve pl bs (o1 # obs) f = resolve pl bs obs (f\<lparr>survived := survived f @ [o1]\<rparr>)"
      by simp
    with resolve_survived_mono [of o1 "f\<lparr>survived := survived f @ [o1]\<rparr>" pl bs obs] True
    show ?thesis by simp
  next
    case False
    with Cons.prems have m: "ob \<in> set obs" by simp
    from Cons.prems(3) obtain f' where r: "resolve pl bs (o1 # obs) f = resolve pl bs obs f'"
      by (auto split: option.splits if_splits)
    with Cons.IH [OF m Cons.prems(2) _ Cons.prems(4), of f'] Cons.prems(3)
    show ?thesis by simp
  qed
qed

lemma keep_bullets_none:
  "keep_bullets {} bs = filter (\<lambda>b. rect_y (rect b) + rect_h (rect b) > 0) bs"
proof -
  have "map snd (filter (\<lambda>(idx, b). rect_y (rect b) + rect_h (rect b) > 0) (enumerate n bs))
      = filter (\<lambda>b. rect_y (rect b) + rect_h (rect b) > 0) bs" for n
    by (induction bs arbitrary: n) simp_all
  then show ?thesis
    by (simp add: keep_bullets_def)
qed

lemma resolve_immune_no_removal:
  "\<forall>x \<in> set obs. color x = RED_IMMUNE \<Longrightarrow>
     bullets_to_remove (resolve pl bs obs f) = bullets_to_remove f"
  by (induction obs arbitrary: f) (simp_all add: bullet_hit_immune)

text \<open>
  Claim C9. An obstacle of the immune colour is destroyed by no bullet, whatever the
  bullets: the inner loop ends without a hit, and the obstacle is handled as if there
  were no bullet, so it adds to the score only by leaving the screen. A hit, which
  removes a bullet and scores, is on an obstacle of another colour that overlaps the
  bullet. A frame whose obstacles are all immune keeps every bullet still on screen
  and ends with the obstacles, score and game-over flag of the frame without bullets;
  and an immune obstacle on screen is among the obstacles after any frame that does
  not end the game.
\<close>

theorem immune_obstacles_bullet_proof:
  "(color ob = RED_IMMUNE \<longrightarrow> bullet_hit ob bs i = None)
   \<and> (bullet_hit ob bs i = Some k \<longrightarrow>
        color ob \<noteq> RED_IMMUNE \<and> i \<le> k \<and> k - i < length bs
        \<and> colliderect (rect ob) (rect (bs ! (k - i))))
   \<and> (color ob = RED_IMMUNE \<longrightarrow>
        resolve pl bs (ob # obs) f =
          (if colliderect (rect ob) pl then f\<lparr>game_over := True\<rparr>
           else if rect_y (rect ob) > HEIGHT then resolve pl bs obs (f\<lparr>score := score f + 1\<rparr>)
           else resolve pl bs obs (f\<lparr>survived := survived f @ [ob]\<rparr>)))
   \<and> ((\<forall>x \<in> set obs. color x = RED_IMMUNE) \<longrightarrow>
        collide pl obs bs sc over =
          (fst (collide pl obs [] sc over),
           filter (\<lambda>b. rect_y (rect b) + rect_h (rect b) > 0) bs,
           snd (snd (collide pl obs [] sc over))))
   \<and> (ob \<in> set obs \<and> color ob = RED_IMMUNE \<and> rect_y (rect ob) \<le> HEIGHT
        \<and> \<not> snd (snd (snd (collide pl obs bs sc over)))
        \<longrightarrow> ob \<in> set (fst (collide pl obs bs sc over)))"
proof -
  have p1: "color ob = RED_IMMUNE \<longrightarrow> bullet_hit ob bs i = None"
    by (simp add: bullet_hit_immune)
  have p2: "bullet_hit ob bs i = Some k \<longrightarrow>
        color ob \<noteq> RED_IMMUNE \<and> i \<le> k \<and> k - i < length bs
        \<and> colliderect (rect ob) (rect (bs ! (k - i)))"
    using bullet_hit_Some [of ob bs i k] by blast
  have p3: "color ob = RED_IMMUNE \<longrightarrow>
        resolve pl bs (ob # obs) f =
          (if colliderect (rect ob) pl then f\<lparr>game_over := True\<rparr>
           else if rect_y (rect ob) > HEIGHT then resolve pl bs obs (f\<lparr>score := score f + 1\<rparr>)
           else resolve pl bs obs (f\<lparr>survived := survived f @ [ob]\<rparr>))"
    by (simp add: bullet_hit_immune)
  have p4: "(\<forall>x \<in> set obs. color x = RED_IMMUNE) \<longrightarrow>
        collide pl obs bs sc over =
          (fst (collide pl obs [] sc over),
           filter (\<lambda>b. rect_y (rect b) + rect_h (rect b) > 0) bs,
           snd (snd (collide pl obs [] sc over)))"
  proof
    assume a: "\<forall>x \<in> set obs. color x = RED_IMMUNE"
    let ?f = "\<lparr>survived = [], bullets_to_remove = {}, score = sc, game_over = over\<rparr>"
    from a have "resolve pl bs obs ?f = resolve pl [] obs ?f"
      by (rule resolve_all_immune)
    moreover from a have "bullets_to_remove (resolve pl bs obs ?f) = {}"
      by (simp add: resolve_immune_no_removal)
    ultimately show "collide pl obs bs sc over =
          (fst (collide pl obs [] sc over),
           filter (\<lambda>b. rect_y (rect b) + rect_h (rect b) > 0) bs,
           snd (snd (collide pl obs [] sc over)))"
      by (simp add: collide_def Let_def keep_bullets_none)
  qed
  have p5: "ob \<in> set obs \<and> color ob = RED_IMMUNE \<and> rect_y (rect ob) \<le> HEIGHT
        \<and> \<not> snd (snd (snd (collide pl obs bs sc over)))
        \<longrightarrow> ob \<in> set (fst (collide pl obs bs sc over))"
    by (simp add: collide_def Let_def resolve_immune_survives)
  show ?thesis
    by (intro conjI) (fact p1, fact p2, fact p3, fact p4, fact p5)
qed

theorem immune_obstacles_bullet_proof_witness:
  "collide \<lparr>rect_x = 425, rect_y = 530, rect_w = 50, rect_h = 50\<rparr>
      [\<lparr>rect = \<lparr>rect_x = 100, rect_y = 100, rect_w = 60, rect_h = 60\<rparr>, color = (231, 76, 60)\<rparr>]
      [\<lparr>rect = \<lparr>rect_x = 120, rect_y = 120, rect_w = 10, rect_h = 22\<rparr>, color = (46, 204, 113)\<rparr>,
       \<lparr>rect = \<lparr>rect_x = 130, rect_y = 110, rect_w = 10, rect_h = 22\<rparr>, color = (46, 204, 113)\<rparr>]
      (0 :: int) False
    = ([\<lparr>rect = \<lparr>rect_x = 100, rect_y = 100, rect_w = 60, rect_h = 60\<rparr>, color = (231, 76, 60)\<rparr>],
       [\<lparr>rect = \<lparr>rect_x = 120, rect_y = 120, rect_w = 10, rect_h = 22\<rparr>, color = (46, 204, 113)\<rparr>,
        \<lparr>rect = \<lparr>rect_x = 130, rect_y = 110, rect_w = 10, rect_h = 22\<rparr>, color = (46, 204, 113)\<rparr>],
       0, False)
   \<and> bullet_hit
       \<lparr>rect = \<lparr>rect_x = 100, rect_y = 100, rect_w = 60, rect_h = 60\<rparr>, color = (231, 76, 60)\<rparr>
       [\<lparr>rect = \<lparr>rect_x = 120, rect_y = 120, rect_w = 10, rect_h = 22\<rparr>, color = (46, 204, 113)\<rparr>,
        \<lparr>rect = \<lparr>rect_x = 130, rect_y = 110, rect_w = 10, rect_h = 22\<rparr>, color = (46, 204, 113)\<rparr>]
       0 = None
   \<and> colliderect \<lparr>rect_x = 100, rect_y = 100, rect_w = 60, rect_h = 60\<rparr>
       \<lparr>rect_x = 120, rect_y = 120, rect_w = 10, rect_h = 22\<rparr>
   \<and> bullet_hit
       \<lparr>rect = \<lparr>rect_x = 100, rect_y = 100, rect_w = 60, rect_h = 60\<rparr>, color = (255, 255, 255)\<rparr>
       [\<lparr>rect = \<lparr>rect_x = 300, rect_y = 120, rect_w = 10, rect_h = 22\<rparr>, color = (46, 204, 113)\<rparr>,
        \<lparr>rect = \<lparr>rect_x = 130, rect_y = 110, rect_w = 10, rect_h = 22\<rparr>, color = (46, 204, 113)\<rparr>]
       0 = Some 1
   \<and> colliderect \<lparr>rect_x = 100, rect_y = 100, rect_w = 60, rect_h = 60\<rparr>
       \<lparr>rect_x = 130, rect_y = 110, rect_w = 10, rect_h = 22\<rparr>"
proof -
  let ?pl = "\<lparr>rect_x = 425, rect_y = 530, rect_w = 50, rect_h = 50\<rparr>"
  let ?imm = "\<lparr>rect = \<lparr>rect_x = 100, rect_y = 100, rect_w = 60, rect_h = 60\<rparr>, color = (231, 76, 60)\<rparr>"
  let ?white = "\<lparr>rect = \<lparr>rect_x = 100, rect_y = 100, rect_w = 60, rect_h = 60\<rparr>, color = (255, 255, 255)\<rparr>"
  let ?b1 = "\<lparr>rect = \<lparr>rect_x = 120, rect_y = 120, rect_w = 10, rect_h = 22\<rparr>, color = (46, 204, 113)\<rparr>"
  let ?b2 = "\<lparr>rect = \<lparr>rect_x = 130, rect_y = 110, rect_w = 10, rect_h = 22\<rparr>, color = (46, 204, 113)\<rparr>"
  let ?b3 = "\<lparr>rect = \<lparr>rect_x = 300, rect_y = 120, rect_w = 10, rect_h = 22\<rparr>, color = (46, 204, 113)\<rparr>"
  have i: "color ?imm = RED_IMMUNE"
    by (simp add: RED_IMMUNE_def)
  have c0: "collide ?pl [?imm] [] (0 :: int) False = ([?imm], [], 0, False)"
    by (simp add: collide_def keep_bullets_def colliderect_def HEIGHT_def)
  have ov: "colliderect (rect ?imm) (rect ?b1)"
    by (simp add: colliderect_def)
  have w: "bullet_hit ?white [?b3, ?b2] 0 = Some 1"
    by (simp add: RED_IMMUNE_def colliderect_def)
  note t1 = immune_obstacles_bullet_proof [where ob = ?imm and bs = "[?b1, ?b2]" and i = 0
      and pl = ?pl and obs = "[?imm]" and sc = "0 :: int" and over = False]
  note t2 = immune_obstacles_bullet_proof [where ob = ?white and bs = "[?b3, ?b2]" and i = 0 and k = 1]
  from t1 i c0 have a1: "collide ?pl [?imm] [?b1, ?b2] (0 :: int) False = ([?imm], [?b1, ?b2], 0, False)"
    by simp
  from t1 i have a2: "bullet_hit ?imm [?b1, ?b2] 0 = None"
    by blast
  from t2 w have a3: "colliderect (rect ?white) (rect ([?b3, ?b2] ! (1 - 0)))"
    by blast
  from a1 a2 ov w a3 show ?thesis
    by simp
qed

section \<open>Properties of the button debouncer\<close>

lemmas button_eval = button_update_def debounce_def commit_def held_def ticks_ms_def
  ticks_diff_def TICKS_PERIOD_def SimpleButton_def DEBOUNCE_MS_def HELD_PRINT_INTERVAL_MS_def

subsection \<open>The tick counter\<close>

lemma ticks_diff_exact:
  assumes "B \<le> A" and "A - B < TICKS_PERIOD div 2"
  shows "ticks_diff (ticks_ms A) (ticks_ms B) = A - B"
proof -
  have "(A mod TICKS_PERIOD - B mod TICKS_PERIOD + TICKS_PERIOD div 2) mod TICKS_PERIOD
      = (A - B + TICKS_PERIOD div 2) mod TICKS_PERIOD"
    by (metis mod_add_left_eq mod_diff_eq)
  also have "\<dots> = A - B + TICKS_PERIOD div 2"
    using assms by (intro mod_pos_pos_trivial) (simp_all add: TICKS_PERIOD_def)
  finally show ?thesis
    by (simp add: ticks_diff_def ticks_ms_def)
qed

lemma ticks_diff_same: "ticks_diff t t = 0"
  by (simp add: ticks_diff_def TICKS_PERIOD_def)

lemma msg_neq [simp]:
  "nm @ '' DOWN'' \<noteq> nm @ '' UP''" "nm @ '' UP'' \<noteq> nm @ '' DOWN''"
  "nm @ '' DOWN'' \<noteq> nm @ '' HELD''" "nm @ '' HELD'' \<noteq> nm @ '' DOWN''"
  "nm @ '' UP'' \<noteq> nm @ '' HELD''" "nm @ '' HELD'' \<noteq> nm @ '' UP''"
  by simp_all

subsection \<open>One call of update\<close>

lemma commit_exact:
  assumes "last_change b = ticks_ms S" and "S \<le> T"
    and "raw \<noteq> stable b \<longrightarrow> T - S < TICKS_PERIOD div 2"
  shows "commit b (ticks_ms T) raw =
     (if DEBOUNCE_MS \<le> T - S \<and> raw \<noteq> stable b then
        (if raw = Low
         then (b\<lparr>stable := raw, pressed_time := Some (ticks_ms T),
                  last_held_print := Some (ticks_ms T)\<rparr>, [name b @ '' DOWN''])
         else (b\<lparr>stable := raw, pressed_time := None, last_held_print := None\<rparr>,
               [name b @ '' UP'']))
      else (b, []))"
proof (cases "raw \<noteq> stable b")
  case True
  with assms have "ticks_diff (ticks_ms T) (last_change b) = T - S"
    by (simp add: ticks_diff_exact)
  then show ?thesis
    by (simp add: commit_def)
next
  case False
  then show ?thesis
    by (simp add: commit_def)
qed

lemma held_exact:
  assumes "pressed_time b = None \<longleftrightarrow> last_held_print b = None"
    and "last_held_print b = map_option ticks_ms h"
    and "\<And>a. h = Some a \<Longrightarrow> a \<le> T \<and> T - a < TICKS_PERIOD div 2"
  shows "held b (ticks_ms T) =
     Inr (if stable b = Low \<and> (\<exists>a. h = Some a \<and> HELD_PRINT_INTERVAL_MS \<le> T - a)
          then (b\<lparr>last_held_print := Some (ticks_ms T)\<rparr>, [name b @ '' HELD''])
          else (b, []))"
proof (cases h)
  case None
  with assms show ?thesis
    by (simp add: held_def)
next
  case (Some a)
  with assms(3) have "ticks_diff (ticks_ms T) (ticks_ms a) = T - a"
    by (simp add: ticks_diff_exact)
  with Some assms(1,2) show ?thesis
    by (simp add: held_def)
qed


lemma update_step:
  assumes c: "consistent nm b run Tl h"
    and t: "Tl \<le> T" "T - Tl < TICKS_PERIOD div 2 - HELD_PRINT_INTERVAL_MS"
  shows "\<exists>b' out. button_update b (ticks_ms T) r = Inr (b', out)
       \<and> out =
           (if DEBOUNCE_MS \<le> T - fst (run_start_step run (T, r)) \<and> r \<noteq> stable b
            then [nm @ (if r = Low then '' DOWN'' else '' UP'')] else [])
           @ (if stable b' = Low \<and> (\<exists>a. h = Some a \<and> HELD_PRINT_INTERVAL_MS \<le> T - a)
              then [nm @ '' HELD''] else [])
       \<and> stable b' =
           (if DEBOUNCE_MS \<le> T - fst (run_start_step run (T, r)) \<and> r \<noteq> stable b
            then r else stable b)
       \<and> consistent nm b' (run_start_step run (T, r)) T (announce_step nm h (T, out))"
proof -
  obtain S r0 where run: "run = (S, r0)"
    by (cases run)
  let ?S' = "fst (run_start_step run (T, r))"
  let ?fire = "DEBOUNCE_MS \<le> T - ?S' \<and> r \<noteq> stable b"
  let ?b1 = "debounce b (ticks_ms T) r"
  from c run have b: "name b = nm" "last_raw b = r0" "last_change b = ticks_ms S" "S \<le> Tl"
    "r0 \<noteq> stable b \<longrightarrow> Tl - S < DEBOUNCE_MS"
    "pressed_time b = None \<longleftrightarrow> last_held_print b = None"
    "last_held_print b = map_option ticks_ms h"
    "\<And>a. h = Some a \<Longrightarrow> stable b = Low \<and> a \<le> Tl \<and> Tl - a < HELD_PRINT_INTERVAL_MS"
    by (auto simp: consistent_def)
  have S': "?S' = (if r \<noteq> r0 then T else S)" and snd': "snd (run_start_step run (T, r)) = r"
    by (simp_all add: run)
  have b1: "last_change ?b1 = ticks_ms ?S'" "last_raw ?b1 = r" "stable ?b1 = stable b"
    "name ?b1 = nm" "pressed_time ?b1 = pressed_time b" "last_held_print ?b1 = last_held_print b"
    using b by (simp_all add: debounce_def S')
  have le: "?S' \<le> T"
    using b(4) t(1) by (simp add: S')
  have rng: "r \<noteq> stable ?b1 \<longrightarrow> T - ?S' < TICKS_PERIOD div 2"
    using b(5) t by (auto simp: S' b1 DEBOUNCE_MS_def HELD_PRINT_INTERVAL_MS_def TICKS_PERIOD_def)
  note cm = commit_exact [OF b1(1) le rng, unfolded b1]
  show ?thesis
  proof (cases ?fire)
    case True
    then have st: "stable b \<noteq> r" by auto
    show ?thesis
    proof (cases r)
      case Low
      with st have "stable b = High" by (cases "stable b") auto
      with b(8) have hN: "h = None" by (cases h) auto
      let ?b2 = "?b1\<lparr>stable := Low, pressed_time := Some (ticks_ms T),
                  last_held_print := Some (ticks_ms T)\<rparr>"
      from True Low cm have c2: "commit ?b1 (ticks_ms T) r = (?b2, [nm @ '' DOWN''])"
        by simp
      have "held ?b2 (ticks_ms T) = Inr (?b2, [])"
        by (simp add: held_def ticks_diff_same HELD_PRINT_INTERVAL_MS_def)
      with c2 have u: "button_update b (ticks_ms T) r = Inr (?b2, [nm @ '' DOWN''])"
        by (simp add: button_update_def)
      have "consistent nm ?b2 (run_start_step run (T, r)) T (Some T)"
        using b1 le snd' Low by (simp add: consistent_def HELD_PRINT_INTERVAL_MS_def)
      with u True Low hN show ?thesis
        by simp
    next
      case High
      let ?b2 = "?b1\<lparr>stable := High, pressed_time := None, last_held_print := None\<rparr>"
      from True High cm have c2: "commit ?b1 (ticks_ms T) r = (?b2, [nm @ '' UP''])"
        by simp
      have "held ?b2 (ticks_ms T) = Inr (?b2, [])"
        by (simp add: held_def)
      with c2 have u: "button_update b (ticks_ms T) r = Inr (?b2, [nm @ '' UP''])"
        by (simp add: button_update_def)
      have "consistent nm ?b2 (run_start_step run (T, r)) T None"
        using b1 le snd' High by (simp add: consistent_def)
      with u True High show ?thesis
        by simp
    qed
  next
    case False
    with cm have c2: "commit ?b1 (ticks_ms T) r = (?b1, [])"
      by simp
    have hr: "\<And>a. h = Some a \<Longrightarrow> a \<le> T \<and> T - a < TICKS_PERIOD div 2"
      using b(8) t by fastforce
    from b(6,7) have h1: "pressed_time ?b1 = None \<longleftrightarrow> last_held_print ?b1 = None"
      and h2: "last_held_print ?b1 = map_option ticks_ms h"
      by (simp_all add: b1)
    note hd = held_exact [OF h1 h2 hr, unfolded b1]
    let ?held = "stable b = Low \<and> (\<exists>a. h = Some a \<and> HELD_PRINT_INTERVAL_MS \<le> T - a)"
    show ?thesis
    proof (cases ?held)
      case True
      let ?b3 = "?b1\<lparr>last_held_print := Some (ticks_ms T)\<rparr>"
      from True hd c2 have u: "button_update b (ticks_ms T) r = Inr (?b3, [nm @ '' HELD''])"
        by (simp add: button_update_def)
      from b(6,7) True have pt: "pressed_time b \<noteq> None"
        by auto
      have "consistent nm ?b3 (run_start_step run (T, r)) T (Some T)"
        using b1 le snd' True False pt
        by (auto simp: consistent_def HELD_PRINT_INTERVAL_MS_def)
      with u True False show ?thesis
        by (simp add: b1)
    next
      case nh: False
      from nh hd c2 have u: "button_update b (ticks_ms T) r = Inr (?b1, [])"
        by (simp add: button_update_def)
      have "consistent nm ?b1 (run_start_step run (T, r)) T h"
        using b1 le snd' nh False b(6,7,8) t(1)
        by (cases h) (auto simp: consistent_def)
      with u nh False show ?thesis
        by (simp add: b1)
    qed
  qed
qed

subsection \<open>The main loop\<close>

lemma poll_snoc:
  "poll b (xs @ [(T, r)]) =
     (case poll b xs of
        Inl e \<Rightarrow> Inl e
      | Inr (b1, outs) \<Rightarrow>
          (case button_update b1 (ticks_ms T) r of
             Inl e \<Rightarrow> Inl e
           | Inr (b2, out) \<Rightarrow> Inr (b2, outs @ [out])))"
  by (induction b xs rule: poll.induct) (auto split: sum.splits prod.splits)

lemma well_timed_snoc:
  "well_timed T0 (ts @ [T]) \<longleftrightarrow>
     well_timed T0 ts \<and> last (T0 # ts) \<le> T
     \<and> T - last (T0 # ts) < TICKS_PERIOD div 2 - HELD_PRINT_INTERVAL_MS"
  by (induction ts arbitrary: T0) auto

lemma run_start_snoc:
  "run_start T0 r0 (xs @ [x]) = run_start_step (run_start T0 r0 xs) x"
  by (simp add: run_start_def)

lemma run_start_Cons:
  "run_start T0 r0 ((T, r) # xs) = run_start (if r \<noteq> r0 then T else T0) r xs"
  by (simp add: run_start_def)

lemma bouncing_snoc:
  "bouncing T0 r0 (xs @ [(T, r)]) \<longleftrightarrow>
     bouncing T0 r0 xs \<and> T - fst (run_start_step (run_start T0 r0 xs) (T, r)) < DEBOUNCE_MS"
proof (induction xs arbitrary: T0 r0)
  case Nil
  show ?case by (simp add: run_start_def)
next
  case (Cons x xs)
  obtain T1 r1 where x: "x = (T1, r1)" by (cases x)
  show ?case
    by (simp add: x Cons.IH run_start_Cons)
qed

lemma last_announce_snoc:
  "length outs = length xs \<Longrightarrow>
     last_announce nm (zip (map fst xs @ [T]) (outs @ [out]))
       = announce_step nm (last_announce nm (zip (map fst xs) outs)) (T, out)"
  by (simp add: last_announce_def)

lemma transitions_snoc:
  "transitions nm (outs @ [out]) =
     transitions nm outs @ filter (\<lambda>m. m = nm @ '' DOWN'' \<or> m = nm @ '' UP'') out"
  by (simp add: transitions_def)

lemma history_step:
  assumes f: "follows nm T0 r0 xs b outs"
    and t: "last (T0 # map fst xs) \<le> T"
      "T - last (T0 # map fst xs) < TICKS_PERIOD div 2 - HELD_PRINT_INTERVAL_MS"
  shows "\<exists>b' out. button_update b (ticks_ms T) r = Inr (b', out)
       \<and> out =
           (if DEBOUNCE_MS \<le> T - fst (run_start T0 r0 (xs @ [(T, r)])) \<and> r \<noteq> stable b
            then [nm @ (if r = Low then '' DOWN'' else '' UP'')] else [])
           @ (if stable b' = Low
                 \<and> (\<exists>a. last_announce nm (zip (map fst xs) outs) = Some a
                        \<and> HELD_PRINT_INTERVAL_MS \<le> T - a)
              then [nm @ '' HELD''] else [])
       \<and> follows nm T0 r0 (xs @ [(T, r)]) b' (outs @ [out])"
proof -
  let ?run = "run_start T0 r0 xs"
  let ?h = "last_announce nm (zip (map fst xs) outs)"
  let ?tr = "transitions nm outs"
  define fire where "fire \<longleftrightarrow> DEBOUNCE_MS \<le> T - fst (run_start_step ?run (T, r)) \<and> r \<noteq> stable b"
  define msg where "msg = nm @ (if r = Low then '' DOWN'' else '' UP'')"
  from f have len: "length outs = length xs"
    and c: "consistent nm b ?run (last (T0 # map fst xs)) ?h"
    and da: "distinct_adj ?tr"
    and la: "?tr \<noteq> [] \<longrightarrow> last ?tr = nm @ (if stable b = Low then '' DOWN'' else '' UP'')"
    and bo: "bouncing T0 r0 xs \<longrightarrow> ?tr = []"
    by (simp_all add: follows_def)
  from update_step [OF c t, of r] obtain b' out where
    u: "button_update b (ticks_ms T) r = Inr (b', out)"
    and out: "out =
           (if fire then [msg] else [])
           @ (if stable b' = Low \<and> (\<exists>a. ?h = Some a \<and> HELD_PRINT_INTERVAL_MS \<le> T - a)
              then [nm @ '' HELD''] else [])"
    and st: "stable b' = (if fire then r else stable b)"
    and c': "consistent nm b' (run_start_step ?run (T, r)) T (announce_step nm ?h (T, out))"
    unfolding fire_def msg_def by blast
  have msg: "msg = nm @ '' DOWN'' \<or> msg = nm @ '' UP''"
    by (simp add: msg_def)
  have tr': "transitions nm (outs @ [out]) = ?tr @ (if fire then [msg] else [])"
    using msg by (subst out) (auto simp add: transitions_snoc)
  have f1: "length (outs @ [out]) = length (xs @ [(T, r)])"
    using len by simp
  have f2: "consistent nm b' (run_start T0 r0 (xs @ [(T, r)])) (last (T0 # map fst (xs @ [(T, r)])))
      (last_announce nm (zip (map fst (xs @ [(T, r)])) (outs @ [out])))"
    using c' by (simp add: run_start_snoc last_announce_snoc [OF len])
  have f3: "distinct_adj (transitions nm (outs @ [out]))"
  proof (cases fire)
    case False
    with da show ?thesis by (simp add: tr')
  next
    case True
    then have "stable b \<noteq> r" by (auto simp: fire_def)
    with la have "?tr \<noteq> [] \<longrightarrow> last ?tr \<noteq> msg"
      unfolding msg_def by (cases r; cases "stable b") auto
    with da True show ?thesis
      by (auto simp add: tr' distinct_adj_append_iff)
  qed
  have f4: "transitions nm (outs @ [out]) \<noteq> [] \<longrightarrow>
      last (transitions nm (outs @ [out])) = nm @ (if stable b' = Low then '' DOWN'' else '' UP'')"
  proof (cases fire)
    case False
    with la st show ?thesis by (simp add: tr')
  next
    case True
    with st show ?thesis by (simp add: tr' msg_def)
  qed
  have f5: "bouncing T0 r0 (xs @ [(T, r)]) \<longrightarrow> transitions nm (outs @ [out]) = []"
  proof
    assume "bouncing T0 r0 (xs @ [(T, r)])"
    then have "bouncing T0 r0 xs" and "\<not> fire"
      by (auto simp: bouncing_snoc fire_def)
    with bo show "transitions nm (outs @ [out]) = []"
      by (simp add: tr')
  qed
  from f1 f2 f3 f4 f5 have "follows nm T0 r0 (xs @ [(T, r)]) b' (outs @ [out])"
    unfolding follows_def by blast
  with u out show ?thesis
    unfolding run_start_snoc fire_def msg_def by blast
qed

lemma poll_history:
  "well_timed T0 (map fst xs) \<Longrightarrow>
     \<exists>b outs. poll (SimpleButton nm r0 (ticks_ms T0)) xs = Inr (b, outs)
       \<and> follows nm T0 r0 xs b outs"
proof (induction xs rule: rev_induct)
  case Nil
  show ?case
    by (simp add: follows_def consistent_def SimpleButton_def run_start_def
        last_announce_def transitions_def)
next
  case (snoc x xs)
  obtain T r where x: "x = (T, r)" by (cases x)
  from snoc.prems have wt: "well_timed T0 (map fst xs)"
    and t: "last (T0 # map fst xs) \<le> T"
      "T - last (T0 # map fst xs) < TICKS_PERIOD div 2 - HELD_PRINT_INTERVAL_MS"
    by (simp_all add: x well_timed_snoc)
  from snoc.IH [OF wt] obtain b outs where
    p: "poll (SimpleButton nm r0 (ticks_ms T0)) xs = Inr (b, outs)"
    and f: "follows nm T0 r0 xs b outs"
    by blast
  from history_step [OF f t, of r] obtain b' out where
    u: "button_update b (ticks_ms T) r = Inr (b', out)"
    and f': "follows nm T0 r0 (xs @ [(T, r)]) b' (outs @ [out])"
    by blast
  from p u have "poll (SimpleButton nm r0 (ticks_ms T0)) (xs @ [(T, r)]) = Inr (b', outs @ [out])"
    by (simp add: poll_snoc)
  with f' show ?case
    unfolding x by blast
qed

text \<open>
  Claim C2. For a button constructed at the time \<open>T0\<close> with the pin at \<open>r0\<close> and
  polled at the times of the samples \<open>xs\<close>, the call at the next tick sends \<open>DOWN\<close> or
  \<open>UP\<close> exactly when the run of equal samples that the sample of this tick belongs to
  began at least the debounce window earlier and the sample differs from the stable
  level; it is \<open>DOWN\<close> for the pressed level and \<open>UP\<close> for the released one. Samples
  that bounce, each one less than the window after the start of its run, give no
  \<open>DOWN\<close> and no \<open>UP\<close> at all; and in what the button ever sends, two \<open>DOWN\<close> or two
  \<open>UP\<close> never follow each other. The tick counter wraps around: the times are those
  of a loop that polls at least once in half the period of the counter.
\<close>

theorem debounce_transitions:
  assumes "well_timed T0 (map fst xs @ [T])"
  shows "\<exists>b outs b' out.
      poll (SimpleButton nm r0 (ticks_ms T0)) xs = Inr (b, outs)
      \<and> button_update b (ticks_ms T) r = Inr (b', out)
      \<and> ((nm @ '' DOWN'' \<in> set out \<or> nm @ '' UP'' \<in> set out) \<longleftrightarrow>
           DEBOUNCE_MS \<le> T - fst (run_start T0 r0 (xs @ [(T, r)])) \<and> r \<noteq> stable b)
      \<and> (nm @ '' DOWN'' \<in> set out \<longrightarrow> r = Low)
      \<and> (nm @ '' UP'' \<in> set out \<longrightarrow> r = High)
      \<and> (bouncing T0 r0 (xs @ [(T, r)]) \<longrightarrow> transitions nm (outs @ [out]) = [])
      \<and> distinct_adj (transitions nm (outs @ [out]))"
proof -
  from assms have wt: "well_timed T0 (map fst xs)"
    and t: "last (T0 # map fst xs) \<le> T"
      "T - last (T0 # map fst xs) < TICKS_PERIOD div 2 - HELD_PRINT_INTERVAL_MS"
    by (simp_all add: well_timed_snoc)
  from poll_history [OF wt] obtain b outs where
    p: "poll (SimpleButton nm r0 (ticks_ms T0)) xs = Inr (b, outs)"
    and f: "follows nm T0 r0 xs b outs"
    by blast
  from history_step [OF f t, of r] obtain b' out where
    u: "button_update b (ticks_ms T) r = Inr (b', out)"
    and out: "out =
           (if DEBOUNCE_MS \<le> T - fst (run_start T0 r0 (xs @ [(T, r)])) \<and> r \<noteq> stable b
            then [nm @ (if r = Low then '' DOWN'' else '' UP'')] else [])
           @ (if stable b' = Low
                 \<and> (\<exists>a. last_announce nm (zip (map fst xs) outs) = Some a
                        \<and> HELD_PRINT_INTERVAL_MS \<le> T - a)
              then [nm @ '' HELD''] else [])"
    and f': "follows nm T0 r0 (xs @ [(T, r)]) b' (outs @ [out])"
    by blast
  have e1: "(nm @ '' DOWN'' \<in> set out \<or> nm @ '' UP'' \<in> set out) \<longleftrightarrow>
           DEBOUNCE_MS \<le> T - fst (run_start T0 r0 (xs @ [(T, r)])) \<and> r \<noteq> stable b"
    by (subst (1 2) out) auto
  have e2: "nm @ '' DOWN'' \<in> set out \<longrightarrow> r = Low"
    by (subst out) (auto split: if_splits)
  have e3: "nm @ '' UP'' \<in> set out \<longrightarrow> r = High"
    by (subst out, cases r) (auto split: if_splits)
  from f' have e4: "bouncing T0 r0 (xs @ [(T, r)]) \<longrightarrow> transitions nm (outs @ [out]) = []"
    and e5: "distinct_adj (transitions nm (outs @ [out]))"
    by (simp_all add: follows_def)
  from p u e1 e2 e3 e4 e5 show ?thesis
    by blast
qed

theorem debounce_transitions_witness:
  "well_timed 0 (map fst [(10, Low), (20, Low)] @ [40])
   \<and> (\<exists>b outs b' out.
        poll (SimpleButton ''A'' High (ticks_ms 0)) [(10, Low), (20, Low)] = Inr (b, outs)
        \<and> button_update b (ticks_ms 40) Low = Inr (b', out)
        \<and> ''A'' @ '' DOWN'' \<in> set out
        \<and> distinct_adj (transitions ''A'' (outs @ [out])))
   \<and> well_timed 0 (map fst [(10, Low), (20, High)] @ [30])
   \<and> bouncing 0 High ([(10, Low), (20, High)] @ [(30, Low)])
   \<and> (\<exists>b outs b' out.
        poll (SimpleButton ''A'' High (ticks_ms 0)) [(10, Low), (20, High)] = Inr (b, outs)
        \<and> button_update b (ticks_ms 30) Low = Inr (b', out)
        \<and> transitions ''A'' (outs @ [out]) = [])"
proof -
  have w1: "well_timed 0 (map fst [(10, Low), (20, Low)] @ [40])"
    by (simp add: TICKS_PERIOD_def HELD_PRINT_INTERVAL_MS_def)
  have w2: "well_timed 0 (map fst [(10, Low), (20, High)] @ [30])"
    by (simp add: TICKS_PERIOD_def HELD_PRINT_INTERVAL_MS_def)
  have bo: "bouncing 0 High ([(10, Low), (20, High)] @ [(30, Low)])"
    by (simp add: DEBOUNCE_MS_def)
  have st: "stable (fst (projr (poll (SimpleButton ''A'' High (ticks_ms 0)) [(10, Low), (20, Low)]))) = High"
    by (simp add: button_eval)
  have rs: "DEBOUNCE_MS \<le> 40 - fst (run_start 0 High ([(10, Low), (20, Low)] @ [(40, Low)]))"
    by (simp add: run_start_def DEBOUNCE_MS_def)
  from debounce_transitions [OF w1, of "''A''" High Low] obtain b outs b' out where
    p: "poll (SimpleButton ''A'' High (ticks_ms 0)) [(10, Low), (20, Low)] = Inr (b, outs)"
    and u: "button_update b (ticks_ms 40) Low = Inr (b', out)"
    and e: "(''A'' @ '' DOWN'' \<in> set out \<or> ''A'' @ '' UP'' \<in> set out) \<longleftrightarrow>
           DEBOUNCE_MS \<le> 40 - fst (run_start 0 High ([(10, Low), (20, Low)] @ [(40, Low)]))
           \<and> Low \<noteq> stable b"
    and up: "''A'' @ '' UP'' \<in> set out \<longrightarrow> Low = High"
    and da: "distinct_adj (transitions ''A'' (outs @ [out]))"
    by blast
  from st p have "stable b = High"
    by simp
  with e rs up have "''A'' @ '' DOWN'' \<in> set out"
    by simp
  with p u da have p1: "\<exists>b outs b' out.
        poll (SimpleButton ''A'' High (ticks_ms 0)) [(10, Low), (20, Low)] = Inr (b, outs)
        \<and> button_update b (ticks_ms 40) Low = Inr (b', out)
        \<and> ''A'' @ '' DOWN'' \<in> set out
        \<and> distinct_adj (transitions ''A'' (outs @ [out]))"
    by blast
  from debounce_transitions [OF w2, of "''A''" High Low] bo
  have p2: "\<exists>b outs b' out.
        poll (SimpleButton ''A'' High (ticks_ms 0)) [(10, Low), (20, High)] = Inr (b, outs)
        \<and> button_update b (ticks_ms 30) Low = Inr (b', out)
        \<and> transitions ''A'' (outs @ [out]) = []"
    by blast
  from w1 p1 w2 bo p2 show ?thesis
    by blast
qed

text \<open>
  Claim C3. At every tick, \<open>HELD\<close> is sent exactly when the stable level after the tick
  is the pressed one and the last announcement of the press in progress, its \<open>DOWN\<close>
  or its last \<open>HELD\<close>, is at least the heartbeat interval old. So the heartbeat comes
  at every such tick for as long as the button stays pressed, and two announcements
  in a row are at least the interval apart.
\<close>

theorem held_heartbeat:
  assumes "well_timed T0 (map fst xs @ [T])"
  shows "\<exists>b outs b' out.
      poll (SimpleButton nm r0 (ticks_ms T0)) xs = Inr (b, outs)
      \<and> button_update b (ticks_ms T) r = Inr (b', out)
      \<and> (nm @ '' HELD'' \<in> set out \<longleftrightarrow>
           stable b' = Low
           \<and> (\<exists>a. last_announce nm (zip (map fst xs) outs) = Some a
                  \<and> HELD_PRINT_INTERVAL_MS \<le> T - a))"
proof -
  from assms have wt: "well_timed T0 (map fst xs)"
    and t: "last (T0 # map fst xs) \<le> T"
      "T - last (T0 # map fst xs) < TICKS_PERIOD div 2 - HELD_PRINT_INTERVAL_MS"
    by (simp_all add: well_timed_snoc)
  from poll_history [OF wt] obtain b outs where
    p: "poll (SimpleButton nm r0 (ticks_ms T0)) xs = Inr (b, outs)"
    and f: "follows nm T0 r0 xs b outs"
    by blast
  from history_step [OF f t, of r] obtain b' out where
    u: "button_update b (ticks_ms T) r = Inr (b', out)"
    and out: "out =
           (if DEBOUNCE_MS \<le> T - fst (run_start T0 r0 (xs @ [(T, r)])) \<and> r \<noteq> stable b
            then [nm @ (if r = Low then '' DOWN'' else '' UP'')] else [])
           @ (if stable b' = Low
                 \<and> (\<exists>a. last_announce nm (zip (map fst xs) outs) = Some a
                        \<and> HELD_PRINT_INTERVAL_MS \<le> T - a)
              then [nm @ '' HELD''] else [])"
    by blast
  have "nm @ '' HELD'' \<in> set out \<longleftrightarrow>
           stable b' = Low
           \<and> (\<exists>a. last_announce nm (zip (map fst xs) outs) = Some a
                  \<and> HELD_PRINT_INTERVAL_MS \<le> T - a)"
    by (subst (1) out) auto
  with p u show ?thesis
    by blast
qed

theorem held_heartbeat_witness:
  "well_timed 0 (map fst [(10, Low), (40, Low), (140, Low)] @ [240])
   \<and> (\<exists>b outs b' out.
        poll (SimpleButton ''A'' High (ticks_ms 0)) [(10, Low), (40, Low), (140, Low)] = Inr (b, outs)
        \<and> last_announce ''A'' (zip (map fst [(10, Low), (40, Low), (140, Low)]) outs) = Some 40
        \<and> button_update b (ticks_ms 240) Low = Inr (b', out)
        \<and> ''A'' @ '' HELD'' \<in> set out)"
proof -
  have w: "well_timed 0 (map fst [(10, Low), (40, Low), (140, Low)] @ [240])"
    by (simp add: TICKS_PERIOD_def HELD_PRINT_INTERVAL_MS_def)
  have pe: "poll (SimpleButton ''A'' High (ticks_ms 0)) [(10, Low), (40, Low), (140, Low)]
      = Inr (\<lparr>name = ''A'', last_raw = Low, last_change = 10, stable = Low,
               pressed_time = Some 40, last_held_print = Some 40\<rparr>, [[], [''A DOWN''], []])"
    by (simp add: button_eval)
  have ue: "stable (fst (projr (button_update
      \<lparr>name = ''A'', last_raw = Low, last_change = 10, stable = Low,
               pressed_time = Some 40, last_held_print = Some 40\<rparr> (ticks_ms 240) Low))) = Low"
    by (simp add: button_eval)
  have la: "last_announce ''A'' (zip (map fst [(10, Low), (40, Low), (140, Low)]) [[], [''A DOWN''], []])
      = Some 40"
    by (simp add: last_announce_def)
  from held_heartbeat [OF w, of "''A''" High Low] obtain b outs b' out where
    p: "poll (SimpleButton ''A'' High (ticks_ms 0)) [(10, Low), (40, Low), (140, Low)] = Inr (b, outs)"
    and u: "button_update b (ticks_ms 240) Low = Inr (b', out)"
    and e: "''A'' @ '' HELD'' \<in> set out \<longleftrightarrow>
           stable b' = Low
           \<and> (\<exists>a. last_announce ''A'' (zip (map fst [(10, Low), (40, Low), (140, Low)]) outs) = Some a
                  \<and> HELD_PRINT_INTERVAL_MS \<le> 240 - a)"
    by blast
  from p pe have b: "b = \<lparr>name = ''A'', last_raw = Low, last_change = 10, stable = Low,
               pressed_time = Some 40, last_held_print = Some 40\<rparr>"
    and o: "outs = [[], [''A DOWN''], []]"
    by simp_all
  from ue u b have s: "stable b' = Low"
    by simp
  from la o have l: "last_announce ''A'' (zip (map fst [(10, Low), (40, Low), (140, Low)]) outs) = Some 40"
    by simp
  with e s have "''A'' @ '' HELD'' \<in> set out"
    by (simp add: HELD_PRINT_INTERVAL_MS_def)
  with w p u l show ?thesis
    by blast
qed

lemma quiet_step:
  assumes "name b = nm" "stable b = Low" "pressed_time b = None" "last_held_print b = None"
  shows "\<exists>b' out. button_update b t r = Inr (b', out)
       \<and> (out = [] \<and> name b' = nm \<and> stable b' = Low \<and> pressed_time b' = None
              \<and> last_held_print b' = None
           \<or> out = [nm @ '' UP''] \<and> r = High)"
  using assms by (cases r) (auto simp: button_update_def debounce_def commit_def held_def)

lemma update_total:
  assumes "pressed_time b = None \<longleftrightarrow> last_held_print b = None"
  shows "\<exists>b' out. button_update b t r = Inr (b', out)
       \<and> (pressed_time b' = None \<longleftrightarrow> last_held_print b' = None)"
  using assms
  by (auto simp: button_update_def debounce_def commit_def held_def split: option.splits)

lemma poll_total:
  "(pressed_time b = None \<longleftrightarrow> last_held_print b = None) \<Longrightarrow> \<exists>b' outs. poll b xs = Inr (b', outs)"
proof (induction xs arbitrary: b)
  case Nil
  show ?case by simp
next
  case (Cons x xs)
  obtain T r where x: "x = (T, r)" by (cases x)
  from update_total [OF Cons.prems, of "ticks_ms T" r] obtain b1 out where
    u: "button_update b (ticks_ms T) r = Inr (b1, out)"
    and i: "pressed_time b1 = None \<longleftrightarrow> last_held_print b1 = None"
    by auto
  from Cons.IH [OF i] obtain b2 outs where "poll b1 xs = Inr (b2, outs)"
    by blast
  with u show ?case
    by (simp add: x)
qed

lemma poll_quiet:
  assumes "name b0 = nm" "stable b0 = Low" "pressed_time b0 = None" "last_held_print b0 = None"
    and "poll b0 xs = Inr (b, outs)" and "concat outs = []"
  shows "name b = nm \<and> stable b = Low \<and> pressed_time b = None \<and> last_held_print b = None"
  using assms
proof (induction xs arbitrary: b0 outs)
  case Nil
  then show ?case by simp
next
  case (Cons x xs)
  obtain T r where x: "x = (T, r)" by (cases x)
  from quiet_step [OF Cons.prems(1-4), of "ticks_ms T" r] obtain b1 out where
    u: "button_update b0 (ticks_ms T) r = Inr (b1, out)"
    and d: "out = [] \<and> name b1 = nm \<and> stable b1 = Low \<and> pressed_time b1 = None
              \<and> last_held_print b1 = None
           \<or> out = [nm @ '' UP''] \<and> r = High"
    by blast
  from Cons.prems(5) u obtain outs1 where p1: "poll b1 xs = Inr (b, outs1)"
    and o: "outs = out # outs1"
    by (auto simp: x split: sum.splits)
  from o Cons.prems(6) have e: "out = []" "concat outs1 = []"
    by simp_all
  with d have q: "name b1 = nm" "stable b1 = Low" "pressed_time b1 = None" "last_held_print b1 = None"
    by simp_all
  from Cons.IH [OF q p1 e(2)] show ?case .
qed

text \<open>
  Claim C10. A button whose pin reads pressed at construction: for as long as it has
  sent nothing, it is stable at pressed with \<open>pressed_time\<close> still \<open>None\<close>, and the next
  call sends nothing or sends \<open>UP\<close> alone, never \<open>DOWN\<close> or \<open>HELD\<close>. The \<open>UP\<close> comes with
  the pin released, and in a loop with times as above after the pin was released for
  the debounce window at least. No call raises.
\<close>

theorem pressed_at_construction:
  "\<exists>b outs b' out.
      poll (SimpleButton nm Low (ticks_ms T0)) xs = Inr (b, outs)
      \<and> button_update b (ticks_ms T) r = Inr (b', out)
      \<and> (concat outs = [] \<longrightarrow>
           stable b = Low \<and> pressed_time b = None
           \<and> (out = []
              \<or> out = [nm @ '' UP''] \<and> r = High
                \<and> (well_timed T0 (map fst xs @ [T]) \<longrightarrow>
                     DEBOUNCE_MS \<le> T - fst (run_start T0 Low (xs @ [(T, r)])))))"
proof -
  let ?b0 = "SimpleButton nm Low (ticks_ms T0)"
  have i0: "name ?b0 = nm" "stable ?b0 = Low" "pressed_time ?b0 = None" "last_held_print ?b0 = None"
    by (simp_all add: SimpleButton_def)
  from poll_total [of ?b0 "xs @ [(T, r)]"] i0 obtain bf outsf where
    "poll ?b0 (xs @ [(T, r)]) = Inr (bf, outsf)"
    by auto
  then obtain b outs b' out where p: "poll ?b0 xs = Inr (b, outs)"
    and u: "button_update b (ticks_ms T) r = Inr (b', out)"
    by (auto simp: poll_snoc split: sum.splits)
  have "stable b = Low \<and> pressed_time b = None
      \<and> (out = []
         \<or> out = [nm @ '' UP''] \<and> r = High
           \<and> (well_timed T0 (map fst xs @ [T]) \<longrightarrow>
                DEBOUNCE_MS \<le> T - fst (run_start T0 Low (xs @ [(T, r)]))))"
    if q: "concat outs = []"
  proof -
    from poll_quiet [OF i0 p q] have qb: "name b = nm" "stable b = Low" "pressed_time b = None"
      "last_held_print b = None"
      by simp_all
    from quiet_step [OF qb, of "ticks_ms T" r] u
    have d: "out = [] \<or> out = [nm @ '' UP''] \<and> r = High"
      by auto
    have "DEBOUNCE_MS \<le> T - fst (run_start T0 Low (xs @ [(T, r)]))"
      if up: "out = [nm @ '' UP'']" and w: "well_timed T0 (map fst xs @ [T])"
    proof -
      from w have wt: "well_timed T0 (map fst xs)"
        and t: "last (T0 # map fst xs) \<le> T"
          "T - last (T0 # map fst xs) < TICKS_PERIOD div 2 - HELD_PRINT_INTERVAL_MS"
        by (simp_all add: well_timed_snoc)
      from poll_history [OF wt, of nm Low] p have f: "follows nm T0 Low xs b outs"
        by auto
      from history_step [OF f t, of r] obtain b2 out2 where
        u2: "button_update b (ticks_ms T) r = Inr (b2, out2)" and "out2 =
           (if DEBOUNCE_MS \<le> T - fst (run_start T0 Low (xs @ [(T, r)])) \<and> r \<noteq> stable b
            then [nm @ (if r = Low then '' DOWN'' else '' UP'')] else [])
           @ (if stable b2 = Low
                 \<and> (\<exists>a. last_announce nm (zip (map fst xs) outs) = Some a
                        \<and> HELD_PRINT_INTERVAL_MS \<le> T - a)
              then [nm @ '' HELD''] else [])"
        by blast
      with up u u2 show ?thesis
        by (auto split: if_splits)
    qed
    with qb d show ?thesis
      by blast
  qed
  with p u show ?thesis
    by blast
qed

theorem pressed_at_construction_witness:
  "\<exists>b outs b' out.
      poll (SimpleButton ''A'' Low (ticks_ms 0)) [(10, Low), (20, High)] = Inr (b, outs)
      \<and> button_update b (ticks_ms 50) High = Inr (b', out)
      \<and> concat outs = [] \<and> pressed_time b = None \<and> out = [''A'' @ '' UP'']
      \<and> well_timed 0 (map fst [(10, Low), (20, High)] @ [50])
      \<and> DEBOUNCE_MS \<le> 50 - fst (run_start 0 Low ([(10, Low), (20, High)] @ [(50, High)]))"
proof -
  have w: "well_timed 0 (map fst [(10, Low), (20, High)] @ [50])"
    by (simp add: TICKS_PERIOD_def HELD_PRINT_INTERVAL_MS_def)
  have pe: "poll (SimpleButton ''A'' Low (ticks_ms 0)) [(10, Low), (20, High)]
      = Inr (\<lparr>name = ''A'', last_raw = High, last_change = 20, stable = Low,
               pressed_time = None, last_held_print = None\<rparr>, [[], []])"
    by (simp add: button_eval)
  have ue: "snd (projr (button_update \<lparr>name = ''A'', last_raw = High, last_change = 20, stable = Low,
               pressed_time = None, last_held_print = None\<rparr> (ticks_ms 50) High)) \<noteq> []"
    by (simp add: button_eval)
  from pressed_at_construction [of "''A''" 0 "[(10, Low), (20, High)]" 50 High]
  obtain b outs b' out where
    p: "poll (SimpleButton ''A'' Low (ticks_ms 0)) [(10, Low), (20, High)] = Inr (b, outs)"
    and u: "button_update b (ticks_ms 50) High = Inr (b', out)"
    and e: "concat outs = [] \<longrightarrow>
           stable b = Low \<and> pressed_time b = None
           \<and> (out = []
              \<or> out = [''A'' @ '' UP''] \<and> High = High
                \<and> (well_timed 0 (map fst [(10, Low), (20, High)] @ [50]) \<longrightarrow>
                     DEBOUNCE_MS \<le> 50 - fst (run_start 0 Low ([(10, Low), (20, High)] @ [(50, High)]))))"
    by blast
  from p pe have b: "b = \<lparr>name = ''A'', last_raw = High, last_change = 20, stable = Low,
               pressed_time = None, last_held_print = None\<rparr>"
    and o: "outs = [[], []]"
    by simp_all
  from ue u b have ne: "out \<noteq> []"
    by simp
  from o have c: "concat outs = []"
    by simp
  with e ne w have "pressed_time b = None \<and> out = [''A'' @ '' UP'']
      \<and> DEBOUNCE_MS \<le> 50 - fst (run_start 0 Low ([(10, Low), (20, High)] @ [(50, High)]))"
    by blast
  with p u c w show ?thesis
    by blast
qed

end
